theory Spec2Isabelle
  imports Main "HOL-Library.Word"
begin

unbundle bit_operations_syntax

section \<open>Machine types and the helpers of common.hpp\<close>

text \<open>
  \<open>uint8_t\<close> and \<open>uint64_t\<close> are words, so that \<open>+\<close> and \<open>-\<close> wrap as in C++.
  Values of type \<open>size_t\<close> that index or count (node numbers, byte positions, heights)
  are natural numbers: under the bounds the theorems state they stay far below \<open>2 ^ 64\<close>.
  Where a \<open>size_t\<close> expression of the source wraps (the \<open>node - 1\<close> that \<open>find\<close>
  returns), the wrap is written out with a word.
\<close>

type_synonym u8 = "8 word"
type_synonym u64 = "64 word"

definition BYTE_MASK :: "u64 list" where
  "BYTE_MASK = [0x0, 0xFF, 0xFFFF, 0xFFFFFF, 0xFFFFFFFF, 0xFFFFFFFFFF,
                0xFFFFFFFFFFFF, 0xFFFFFFFFFFFFFF, 0xFFFFFFFFFFFFFFFF]"

text \<open>
  Modelled from the spec: \<open>find_last_set\<close> is declared in common.hpp, which is not part
  of the sources. The level table has \<open>find_last_set(size) + 1\<close> entries and the
  spec counts \<open>\<lfloor>log\<^sub>2 N\<rfloor> + 1\<close> levels, so \<open>find_last_set n\<close> is the position of the
  highest set bit counted from one, and zero for zero.
\<close>

fun find_last_set :: "nat \<Rightarrow> nat" where
  "find_last_set n = (if n = 0 then 0 else Suc (find_last_set (n div 2)))"

declare find_last_set.simps [simp del]

text \<open>
  Modelled from the spec: count trailing zeros, which the spec gives as
  \<open>find_first_set - 1\<close>; \<open>find_first_set\<close> is declared in common.hpp.
\<close>

fun ctz :: "nat \<Rightarrow> nat" where
  "ctz n = (if n = 0 \<or> odd n then 0 else Suc (ctz (n div 2)))"

declare ctz.simps [simp del]

definition find_first_set :: "nat \<Rightarrow> nat" where
  "find_first_set n = (if n = 0 then 0 else Suc (ctz n))"

text \<open>
  Modelled from the spec: \<open>lowest_set_bit(x) = x & -x\<close>, the source's
  \<open>mask_first_set\<close> of common.hpp: the lowest set bit alone, zero for zero.
\<close>

definition mask_first_set :: "nat \<Rightarrow> nat" where
  "mask_first_set n = (if n = 0 then 0 else 2 ^ ctz n)"

text \<open>
  Modelled from the spec: \<open>mask_last_set(x)\<close> isolates the highest set bit
  (common.hpp).
\<close>

definition mask_last_set :: "nat \<Rightarrow> nat" where
  "mask_last_set n = (if n = 0 then 0 else 2 ^ (find_last_set n - 1))"

section \<open>Unaligned 64-bit accesses\<close>

text \<open>
  The tree is a byte buffer that the code reads and writes through
  \<open>reinterpret_cast<auint64_t*>(&tree[byte_pos])\<close>: eight bytes at an arbitrary byte
  position, least significant byte first (the masking by \<open>BYTE_MASK\<close> keeps the low
  bytes, which are the node's own bytes only on a little-endian machine).
  Such an access does not stop at the end of the buffer, so the memory is modelled as the
  bytes seen from the buffer's first byte on, \<open>nat \<Rightarrow> u8\<close>, and the number of bytes
  the buffer was allocated with is kept beside it.
\<close>

type_synonym memory = "nat \<Rightarrow> u8"

fun le_word :: "u8 list \<Rightarrow> u64" where
  "le_word [] = 0"
| "le_word (b # bs) = ucast b OR push_bit 8 (le_word bs)"

definition load64 :: "memory \<Rightarrow> nat \<Rightarrow> u64" where
  "load64 m p = le_word (map (\<lambda>i. m (p + i)) [0..<8])"

definition store64 :: "memory \<Rightarrow> nat \<Rightarrow> u64 \<Rightarrow> memory" where
  "store64 m p w = (\<lambda>a. if p \<le> a \<and> a < p + 8 then ucast (drop_bit (8 * (a - p)) w) else m a)"

section \<open>ByteFenwickTree\<close>

record ByteFenwickTree =
  LEAF_BITSIZE :: nat
  tsize :: nat
  tree :: memory
  tree_alloc :: nat
  level :: "nat list"

definition get_size :: "nat \<Rightarrow> nat \<Rightarrow> nat" where
  "get_size B height = (height + B - 1) div 8 + 1"

text \<open>The table \<open>level\<close>: entry \<open>i\<close> as lines 56 to 58 of byte.hpp compute it.\<close>

fun level_entry :: "nat \<Rightarrow> nat \<Rightarrow> nat \<Rightarrow> nat" where
  "level_entry B n 0 = 0"
| "level_entry B n (Suc i) =
     ((n + 2 ^ i) div 2 ^ Suc i) * get_size B i + level_entry B n i"

definition make_level :: "nat \<Rightarrow> nat \<Rightarrow> nat list" where
  "make_level B n = map (level_entry B n) [0..<find_last_set n + 1]"

text \<open>The innermost loop of the constructor (lines 70 to 76), one iteration.\<close>

definition build_add :: "nat \<Rightarrow> nat list \<Rightarrow> memory \<Rightarrow> nat \<Rightarrow> nat \<times> u64 \<Rightarrow> nat \<times> u64" where
  "build_add B lv m j = (\<lambda>(sequence_idx, value).
     let sequence_idx = drop_bit 1 sequence_idx;
         prev_byte_pos = lv ! j + get_size B j * sequence_idx
     in (sequence_idx, value + (load64 m prev_byte_pos AND BYTE_MASK ! get_size B j)))"

text \<open>The body of the loop over the nodes of level \<open>l\<close> (lines 65 to 79).\<close>

definition build_node :: "nat \<Rightarrow> nat list \<Rightarrow> u64 list \<Rightarrow> nat \<Rightarrow> nat \<Rightarrow> memory \<Rightarrow> memory" where
  "build_node B lv sequence l node m =
     (let curr_byte_pos = lv ! l + get_size B l * drop_bit (l + 1) node;
          (sequence_idx, value) = fold (build_add B lv m) [0..<l] (node - 1, sequence ! (node - 1));
          m1 = store64 m curr_byte_pos (load64 m curr_byte_pos AND NOT (BYTE_MASK ! get_size B l))
      in store64 m1 curr_byte_pos (load64 m1 curr_byte_pos OR (value AND BYTE_MASK ! get_size B l)))"

function build_level :: "nat \<Rightarrow> nat \<Rightarrow> nat list \<Rightarrow> u64 list \<Rightarrow> nat \<Rightarrow> nat \<Rightarrow> memory \<Rightarrow> memory" where
  "build_level B n lv sequence l node m =
     (if node \<le> n then build_level B n lv sequence l (node + 2 ^ (l + 1)) (build_node B lv sequence l node m)
      else m)"
  by pat_completeness auto
termination
  by (relation "measure (\<lambda>(B, n, lv, sequence, l, node, m). Suc n - node)")
    (auto simp: diff_less_mono2)

declare build_level.simps [simp del]

text \<open>
  The constructor. \<open>env\<close> is what the memory behind the buffer holds when the tree is
  built; the buffer itself is zero-initialised by \<open>DArray\<close>.
\<close>

definition ByteFenwickTree :: "nat \<Rightarrow> memory \<Rightarrow> u64 list \<Rightarrow> nat \<Rightarrow> ByteFenwickTree" where
  "ByteFenwickTree B env sequence n =
     (let lv = make_level B n;
          levels = length lv - 1;
          alloc = lv ! levels + 3;
          m0 = (\<lambda>a. if a < alloc then 0 else env a)
      in \<lparr> LEAF_BITSIZE = B, tsize = n,
           tree = fold (\<lambda>l m. build_level B n lv sequence l (2 ^ l) m) [0..<levels] m0,
           tree_alloc = alloc, level = lv \<rparr>)"

text \<open>The byte position of the node with number \<open>index\<close> (lines 93 to 96, 108 to 110).\<close>

definition node_height :: "nat \<Rightarrow> nat" where
  "node_height index = find_first_set index - 1"

definition node_byte_pos :: "ByteFenwickTree \<Rightarrow> nat \<Rightarrow> nat" where
  "node_byte_pos t index =
     (let height = node_height index;
          level_idx = drop_bit (1 + height) index
      in level t ! height + get_size (LEAF_BITSIZE t) height * level_idx)"

partial_function (option) get_loop :: "ByteFenwickTree \<Rightarrow> nat \<Rightarrow> nat \<Rightarrow> u64 \<Rightarrow> u64 option" where
  "get_loop t idx index acc =
     (let index = index + mask_last_set (idx XOR index);
          elem_size = get_size (LEAF_BITSIZE t) (node_height index);
          acc = acc + (load64 (tree t) (node_byte_pos t index) AND BYTE_MASK ! elem_size)
      in if idx XOR index \<noteq> 0 then get_loop t idx index acc else Some acc)"

declare get_loop.simps [code]

definition get :: "ByteFenwickTree \<Rightarrow> nat \<Rightarrow> u64 option" where
  "get t idx = get_loop t (idx + 1) 0 0"

text \<open>
  \<open>set\<close> takes an \<open>int64_t\<close> and adds it to the 64-bit word at the node: the increment
  is the word \<open>inc\<close>, a negative one in two's complement.
\<close>

partial_function (option) set_loop :: "ByteFenwickTree \<Rightarrow> nat \<Rightarrow> u64 \<Rightarrow> ByteFenwickTree option" where
  "set_loop t idx inc =
     (if idx \<le> tsize t
      then set_loop (t\<lparr>tree := store64 (tree t) (node_byte_pos t idx)
                                  (load64 (tree t) (node_byte_pos t idx) + inc)\<rparr>)
                    (idx + mask_first_set idx) inc
      else Some t)"

declare set_loop.simps [code]

definition set_tree :: "ByteFenwickTree \<Rightarrow> nat \<Rightarrow> u64 \<Rightarrow> ByteFenwickTree option" where
  "set_tree t idx inc = set_loop t (idx + 1) inc"

definition find_step :: "ByteFenwickTree \<Rightarrow> bool \<Rightarrow> nat \<Rightarrow> nat \<times> nat \<times> u64 \<Rightarrow> nat \<times> nat \<times> u64" where
  "find_step t complement height = (\<lambda>(node, idx, val).
     let elem_size = get_size (LEAF_BITSIZE t) height;
         byte_pos = level t ! height + elem_size * idx;
         value = (if byte_pos \<ge> level t ! (length (level t) - 1) then - 1
                  else load64 (tree t) byte_pos AND BYTE_MASK ! elem_size);
         value = (if complement then push_bit (LEAF_BITSIZE t + height - 1) 1 - value else value);
         idx = push_bit 1 idx
     in if val \<ge> value then (node + 2 ^ height, idx + 1, val - value) else (node, idx, val))"

definition find_walk :: "ByteFenwickTree \<Rightarrow> bool \<Rightarrow> u64 \<Rightarrow> nat \<times> nat \<times> u64" where
  "find_walk t complement val =
     fold (find_step t complement) (rev [0..<length (level t) - 1]) (0, 0, val)"

definition find :: "ByteFenwickTree \<Rightarrow> u64 \<Rightarrow> bool \<Rightarrow> u64" where
  "find t val complement =
     (let (node, idx, val) = find_walk t complement val
      in if node \<le> tsize t then of_nat node - 1 else of_nat (tsize t) - 1)"

section \<open>Concrete trees\<close>

definition zero_memory :: memory where
  "zero_memory = (\<lambda>a. 0)"

text \<open>The tree over the single value 1, with \<open>LEAF_BITSIZE = 7\<close>.\<close>

definition one_leaf :: ByteFenwickTree where
  "one_leaf = ByteFenwickTree 7 zero_memory [1] 1"

definition store_bytes :: "memory \<Rightarrow> nat \<Rightarrow> nat \<Rightarrow> u64 \<Rightarrow> memory" where
  "store_bytes m p s w = (\<lambda>a. if p \<le> a \<and> a < p + s then ucast (drop_bit (8 * (a - p)) w) else m a)"

definition level_nodes :: "nat \<Rightarrow> nat \<Rightarrow> nat" where
  "level_nodes n h = (n + 2 ^ h) div 2 ^ (h + 1)"

definition node_number :: "nat \<Rightarrow> nat \<Rightarrow> nat" where
  "node_number h k = k * 2 ^ (h + 1) + 2 ^ h"

definition node_pos :: "nat \<Rightarrow> nat \<Rightarrow> nat \<Rightarrow> nat \<Rightarrow> nat" where
  "node_pos B n h k = level_entry B n h + get_size B h * k"

definition node_val :: "nat \<Rightarrow> nat \<Rightarrow> memory \<Rightarrow> nat \<Rightarrow> nat \<Rightarrow> u64" where
  "node_val B n m h k = load64 m (node_pos B n h k) AND BYTE_MASK ! get_size B h"

definition outside_node :: "nat \<Rightarrow> nat \<Rightarrow> nat \<Rightarrow> nat \<Rightarrow> memory \<Rightarrow> memory \<Rightarrow> bool" where
  "outside_node B n h k m m' \<longleftrightarrow>
     (\<forall>a. \<not> (node_pos B n h k \<le> a \<and> a < node_pos B n h k + get_size B h) \<longrightarrow> m' a = m a)"

definition range_sum :: "u64 list \<Rightarrow> nat \<Rightarrow> nat \<Rightarrow> nat" where
  "range_sum v a b = (\<Sum>i = a..<b. unat (v ! i))"

definition node_ok :: "nat \<Rightarrow> nat \<Rightarrow> u64 list \<Rightarrow> memory \<Rightarrow> nat \<Rightarrow> nat \<Rightarrow> bool" where
  "node_ok B n v m h k \<longleftrightarrow>
     unat (node_val B n m h k) = range_sum v (k * 2 ^ (h + 1)) (node_number h k)"

definition tree_bounds :: "nat \<Rightarrow> nat \<Rightarrow> u64 list \<Rightarrow> bool" where
  "tree_bounds B n v \<longleftrightarrow>
     1 \<le> B \<and> B + find_last_set n \<le> 64 \<and> n < 2 ^ 30 \<and> length v = n \<and>
     (\<forall>x \<in> set v. unat x < 2 ^ B)"

definition levels_ok :: "nat \<Rightarrow> nat \<Rightarrow> u64 list \<Rightarrow> memory \<Rightarrow> nat \<Rightarrow> nat \<Rightarrow> bool" where
  "levels_ok B n v m l c \<longleftrightarrow>
     (\<forall>j k. node_number j k \<le> n \<longrightarrow> j < l \<or> (j = l \<and> k < c) \<longrightarrow> node_ok B n v m j k)"

definition represents :: "ByteFenwickTree \<Rightarrow> nat \<Rightarrow> nat \<Rightarrow> u64 list \<Rightarrow> bool" where
  "represents t B n v \<longleftrightarrow>
     LEAF_BITSIZE t = B \<and> tsize t = n \<and> level t = make_level B n \<and>
     (\<forall>h k. node_number h k \<le> n \<longrightarrow> node_ok B n v (tree t) h k)"

definition candidate_value :: "ByteFenwickTree \<Rightarrow> bool \<Rightarrow> nat \<Rightarrow> nat \<Rightarrow> u64" where
  "candidate_value t complement height idx =
     (let elem_size = get_size (LEAF_BITSIZE t) height;
          byte_pos = level t ! height + elem_size * idx;
          value = (if byte_pos \<ge> level t ! (length (level t) - 1) then - 1
                   else load64 (tree t) byte_pos AND BYTE_MASK ! elem_size)
      in if complement then push_bit (LEAF_BITSIZE t + height - 1) 1 - value else value)"

definition walk_inv :: "u64 list \<Rightarrow> u64 \<Rightarrow> nat \<Rightarrow> nat \<Rightarrow> nat \<times> nat \<times> u64 \<Rightarrow> bool" where
  "walk_inv v t P h = (\<lambda>(node, idx, val).
     node = idx * 2 ^ h \<and> node \<le> P \<and> P < node + 2 ^ h \<and>
     range_sum v 0 node \<le> unat t \<and> unat val = unat t - range_sum v 0 node)"

definition sat_inv :: "nat \<Rightarrow> u64 list \<Rightarrow> u64 \<Rightarrow> nat \<Rightarrow> nat \<times> nat \<times> u64 \<Rightarrow> bool" where
  "sat_inv n v t h = (\<lambda>(node, idx, val).
     n < node \<or> (node = idx * 2 ^ h \<and> node \<le> n \<and> n < node + 2 ^ h \<and>
                 unat val = unat t - range_sum v 0 node))"

definition ones15 :: "u64 list" where
  "ones15 = replicate 15 1"

definition complement_sequence :: "nat \<Rightarrow> u64 list \<Rightarrow> u64 list" where
  "complement_sequence B v = map (\<lambda>x. 2 ^ (B - 1) - x) v"

function set_path :: "nat \<Rightarrow> nat \<Rightarrow> nat list" where
  "set_path n x = (if x = 0 \<or> n < x then [] else x # set_path n (x + mask_first_set x))"
  by pat_completeness auto

termination
proof (relation "measure (\<lambda>(n, x). Suc n - x)")
  show "wf (measure (\<lambda>(n, x). Suc n - x))" by simp
next
  fix n x :: nat
  assume "\<not> (x = 0 \<or> n < x)"
  then have "0 < mask_first_set x" "x \<le> n" by (simp_all add: mask_first_set_def)
  then show "((n, x + mask_first_set x), (n, x)) \<in> measure (\<lambda>(n, x). Suc n - x)"
    by simp
qed

declare set_path.simps [simp del]

definition node_value :: "ByteFenwickTree \<Rightarrow> nat \<Rightarrow> u64" where
  "node_value t x = load64 (tree t) (node_byte_pos t x)
                      AND BYTE_MASK ! get_size (LEAF_BITSIZE t) (node_height x)"

definition node_bytes :: "ByteFenwickTree \<Rightarrow> nat \<Rightarrow> nat set" where
  "node_bytes t x = {node_byte_pos t x ..< node_byte_pos t x + get_size (LEAF_BITSIZE t) (node_height x)}"

definition layout_ok :: "ByteFenwickTree \<Rightarrow> nat \<Rightarrow> nat \<Rightarrow> bool" where
  "layout_ok t B n \<longleftrightarrow>
     LEAF_BITSIZE t = B \<and> tsize t = n \<and> level t = make_level B n \<and>
     1 \<le> B \<and> B + find_last_set n \<le> 64 \<and> n < 2 ^ 30"

definition tree123 :: ByteFenwickTree where
  "tree123 = ByteFenwickTree 7 zero_memory [1, 2, 3] 3"

section \<open>Properties of the unaligned accesses\<close>

lemma bit_le_word:
  "bit (le_word bs) n \<longleftrightarrow> n < 64 \<and> n div 8 < length bs \<and> bit (bs ! (n div 8)) (n mod 8)"
proof (induction bs arbitrary: n)
  case Nil
  then show ?case by simp
next
  case (Cons b bs)
  show ?case
  proof (cases "n < 8")
    case True
    then show ?thesis by (simp add: bit_simps)
  next
    case False
    then have "n div 8 = Suc ((n - 8) div 8)" "(n - 8) mod 8 = n mod 8"
      by (simp_all add: le_div_geq le_mod_geq)
    with False show ?thesis
      by (auto simp add: bit_simps Cons.IH dest: bit_imp_le_length)
  qed
qed

lemma bit_load64:
  "bit (load64 m p) n \<longleftrightarrow> n < 64 \<and> bit (m (p + n div 8)) (n mod 8)"
proof -
  have "n < 64 \<Longrightarrow> n div 8 < 8" by simp
  then show ?thesis
    unfolding load64_def bit_le_word by (auto simp del: upt_Suc)
qed

lemma BYTE_MASK_eq_mask: "s \<le> 8 \<Longrightarrow> BYTE_MASK ! s = mask (8 * s)"
proof -
  assume "s \<le> 8"
  then consider "s = 0" | "s = 1" | "s = 2" | "s = 3" | "s = 4" | "s = 5" | "s = 6" | "s = 7" | "s = 8"
    by linarith
  then show ?thesis
    by cases (simp_all add: BYTE_MASK_def mask_eq_exp_minus_1)
qed

lemma bit_store64:
  "bit (store64 m p w a) j \<longleftrightarrow>
     (if p \<le> a \<and> a < p + 8 then j < 8 \<and> bit w (8 * (a - p) + j) else bit (m a) j)"
  by (auto simp add: store64_def bit_simps dest: bit_imp_le_length)

lemma load64_store64_same: "load64 (store64 m p w) p = w"
  by (rule bit_word_eqI) (auto simp add: bit_load64 bit_store64 dest: bit_imp_le_length)

lemma store64_twice: "store64 (store64 m p a) p b = store64 m p b"
  by (rule ext) (simp add: store64_def)

lemma bit_BYTE_MASK:
  "s \<le> 8 \<Longrightarrow> bit (BYTE_MASK ! s) n \<longleftrightarrow> n < 8 * s"
  by (auto simp add: BYTE_MASK_eq_mask bit_simps)

lemma byte_index: "j < 8 \<Longrightarrow> (8 * d + j) div 8 = d" "j < 8 \<Longrightarrow> (8 * d + j) mod 8 = j"
  "j < 8 \<Longrightarrow> 8 * d + j < 8 * s \<longleftrightarrow> d < s"
  for d j s :: nat
  by auto

lemma div8_less: "n div 8 < s \<longleftrightarrow> n < 8 * s" for n s :: nat
  by (simp add: div_less_iff_less_mult mult.commute)

lemma masked_store_eq:
  assumes "s \<le> 8"
  shows "store64 m p ((load64 m p AND NOT (BYTE_MASK ! s)) OR (v AND BYTE_MASK ! s))
         = store_bytes m p s v"
proof (rule ext)
  fix a
  show "store64 m p ((load64 m p AND NOT (BYTE_MASK ! s)) OR (v AND BYTE_MASK ! s)) a
         = store_bytes m p s v a"
  proof (rule bit_word_eqI)
    fix j assume "j < LENGTH(8)"
    then have j: "j < 8" by simp
    show "bit (store64 m p ((load64 m p AND NOT (BYTE_MASK ! s)) OR (v AND BYTE_MASK ! s)) a) j
          = bit (store_bytes m p s v a) j"
    proof (cases "p \<le> a \<and> a < p + 8")
      case False
      then show ?thesis using assms by (auto simp add: bit_store64 store_bytes_def)
    next
      case True
      then obtain d where d: "a = p + d" "d < 8"
        using le_Suc_ex by auto
      have b: "8 * d + j < 64" using d j by simp
      show ?thesis
        using assms j d b
        by (auto simp add: bit_store64 store_bytes_def bit_simps bit_BYTE_MASK
              bit_load64 byte_index)
    qed
  qed
qed

lemma load_store_bytes_masked:
  assumes "s \<le> 8"
  shows "load64 (store_bytes m p s v) p AND BYTE_MASK ! s = v AND BYTE_MASK ! s"
proof (rule bit_word_eqI)
  fix n assume "n < LENGTH(64)"
  then have n: "n < 64" by simp
  have e: "8 * (n div 8) + n mod 8 = n" by simp
  show "bit (load64 (store_bytes m p s v) p AND BYTE_MASK ! s) n = bit (v AND BYTE_MASK ! s) n"
    using assms n
    by (auto simp add: bit_BYTE_MASK bit_load64 store_bytes_def bit_simps e div8_less)
qed

lemma load_masked_cong:
  assumes "s \<le> 8" and "\<And>a. p \<le> a \<Longrightarrow> a < p + s \<Longrightarrow> m' a = m a"
  shows "load64 m' p AND BYTE_MASK ! s = load64 m p AND BYTE_MASK ! s"
proof (rule bit_word_eqI)
  fix n assume "n < LENGTH(64)"
  have "n < 8 * s \<Longrightarrow> m' (p + n div 8) = m (p + n div 8)"
    using assms(2) [of "p + n div 8"] by (simp add: div8_less)
  then show "bit (load64 m' p AND BYTE_MASK ! s) n = bit (load64 m p AND BYTE_MASK ! s) n"
    using assms(1) by (auto simp add: bit_BYTE_MASK bit_load64 bit_simps)
qed

lemma unat_and_BYTE_MASK:
  assumes "s \<le> 8"
  shows "unat (x AND BYTE_MASK ! s) = unat x mod 2 ^ (8 * s)"
proof -
  have a: "x AND BYTE_MASK ! s = take_bit (8 * s) x"
    using assms by (simp only: BYTE_MASK_eq_mask take_bit_eq_mask)
  have b: "unat (take_bit (8 * s) x) = take_bit (8 * s) (unat x)"
    by (rule unsigned_take_bit_eq)
  have c: "take_bit (8 * s) (unat x) = unat x mod 2 ^ (8 * s)"
    by (rule take_bit_eq_mod)
  show ?thesis unfolding a b c ..
qed

lemma and_BYTE_MASK_id:
  assumes "s \<le> 8" and "unat x < 2 ^ (8 * s)"
  shows "x AND BYTE_MASK ! s = x"
proof -
  have "unat (x AND BYTE_MASK ! s) = unat x"
    using assms by (simp add: unat_and_BYTE_MASK)
  then show ?thesis by (rule word_unat_eq_iff [THEN iffD2])
qed

lemma split_at_mask: "(w AND NOT M) + (w AND M) = w" for w M :: u64
proof -
  have "(w AND NOT M) AND (w AND M) = 0"
    by (rule bit_word_eqI) (simp add: bit_simps)
  then have "(w AND NOT M) + (w AND M) = (w AND NOT M) OR (w AND M)"
    by (rule disjunctive_add_eq_or)
  also have "\<dots> = w"
    by (rule bit_word_eqI) (auto simp add: bit_simps)
  finally show ?thesis .
qed

lemma add_store_eq:
  assumes "s \<le> 8" and "unat ((load64 m p AND BYTE_MASK ! s) + inc) < 2 ^ (8 * s)"
  shows "store64 m p (load64 m p + inc) = store_bytes m p s ((load64 m p AND BYTE_MASK ! s) + inc)"
proof -
  define w where "w = load64 m p"
  define M where "M = BYTE_MASK ! s"
  define x where "x = (w AND M) + inc"
  have x: "x AND M = x"
    unfolding x_def M_def w_def using assms by (rule and_BYTE_MASK_id)
  have "w + inc = ((w AND NOT M) + (w AND M)) + inc"
    by (simp only: split_at_mask)
  also have "\<dots> = (w AND NOT M) + x"
    by (simp only: x_def add.assoc)
  also have "\<dots> = (w AND NOT M) OR x"
  proof (rule disjunctive_add_eq_or)
    have "(w AND NOT M) AND (x AND M) = 0"
      by (rule bit_word_eqI) (simp add: bit_simps)
    then show "(w AND NOT M) AND x = 0" by (simp only: x)
  qed
  finally have "w + inc = (w AND NOT M) OR (x AND M)" by (simp only: x)
  then show ?thesis
    using masked_store_eq [OF assms(1), of m p x]
    by (simp only: w_def M_def x_def)
qed

lemma less_level_nodes_iff: "k < level_nodes n h \<longleftrightarrow> node_number h k \<le> n"
proof -
  define p :: nat where "p = 2 ^ h"
  have "0 < 2 * p" by (simp add: p_def)
  then have "Suc k \<le> (n + p) div (2 * p) \<longleftrightarrow> Suc k * (2 * p) \<le> n + p"
    by (rule less_eq_div_iff_mult_less_eq)
  also have "\<dots> \<longleftrightarrow> k * (2 * p) + p \<le> n" by auto
  finally show ?thesis
    by (simp add: level_nodes_def node_number_def p_def Suc_le_eq)
qed

lemma find_last_set_le_iff: "find_last_set n \<le> k \<longleftrightarrow> n < 2 ^ k"
proof (induction n arbitrary: k rule: find_last_set.induct)
  case (1 n)
  show ?case
  proof (cases "n = 0")
    case True
    then show ?thesis by (simp add: find_last_set.simps)
  next
    case False
    show ?thesis
    proof (cases k)
      case 0
      with False show ?thesis by (simp add: find_last_set.simps [of n])
    next
      case (Suc k')
      have "n div 2 < 2 ^ k' \<longleftrightarrow> n < 2 * 2 ^ k'" by auto
      with False Suc 1 [OF False, of k'] show ?thesis
        by (simp add: find_last_set.simps [of n])
    qed
  qed
qed

lemma less_find_last_set_iff: "h < find_last_set n \<longleftrightarrow> 2 ^ h \<le> n"
  using find_last_set_le_iff [of n h] by auto

lemma ctz_node_number: "ctz (node_number h k) = h"
proof (induction h)
  case 0
  then show ?case by (simp add: node_number_def ctz.simps)
next
  case (Suc h)
  have "node_number (Suc h) k = 2 * node_number h k"
    by (simp add: node_number_def algebra_simps)
  moreover have "node_number h k \<noteq> 0" by (simp add: node_number_def)
  ultimately show ?case using Suc by (simp add: ctz.simps [of "2 * node_number h k"])
qed

lemma node_number_pos: "0 < node_number h k"
  by (simp add: node_number_def)

lemma node_height_node_number: "node_height (node_number h k) = h"
  using node_number_pos [of h k] by (simp add: node_height_def find_first_set_def ctz_node_number)

lemma drop_bit_node_number: "drop_bit (1 + h) (node_number h k) = k"
  by (simp add: node_number_def drop_bit_eq_div)

lemma mask_first_set_node_number: "mask_first_set (node_number h k) = 2 ^ h"
  using node_number_pos [of h k] by (simp add: mask_first_set_def ctz_node_number)

lemma node_number_decompose: "0 < x \<Longrightarrow> \<exists>h k. x = node_number h k"
proof (induction x rule: less_induct)
  case (less x)
  show ?case
  proof (cases "odd x")
    case True
    then obtain k where "x = 2 * k + 1" by (auto elim: oddE)
    then have "x = node_number 0 k" by (simp add: node_number_def)
    then show ?thesis by blast
  next
    case False
    then obtain y where y: "x = 2 * y" by (auto elim: evenE)
    with less.prems have "0 < y" "y < x" by simp_all
    then obtain h k where "y = node_number h k" using less.IH by blast
    with y have "x = node_number (Suc h) k" by (simp add: node_number_def algebra_simps)
    then show ?thesis by blast
  qed
qed

lemma level_entry_Suc:
  "level_entry B n (Suc h) = level_entry B n h + level_nodes n h * get_size B h"
  by (simp add: level_nodes_def)

lemma level_entry_mono: "h \<le> h' \<Longrightarrow> level_entry B n h \<le> level_entry B n h'"
  by (induction h') (auto simp add: le_Suc_eq)

lemma node_end_le:
  assumes "node_number h k \<le> n"
  shows "node_pos B n h k + get_size B h \<le> level_entry B n (Suc h)"
proof -
  have "Suc k \<le> level_nodes n h"
    using assms by (simp add: Suc_le_eq less_level_nodes_iff)
  then have "get_size B h * Suc k \<le> get_size B h * level_nodes n h"
    by (rule mult_le_mono2)
  then show ?thesis
    unfolding node_pos_def level_entry_Suc by (simp add: mult.commute)
qed

lemma node_pos_ge: "level_entry B n h \<le> node_pos B n h k"
  by (simp add: node_pos_def)

lemma node_bytes_disjoint_level:
  assumes "h < h'" "node_number h k \<le> n"
    and "a < node_pos B n h k + get_size B h"
  shows "a < node_pos B n h' k'"
proof -
  have "a < level_entry B n (Suc h)"
    using node_end_le [OF assms(2), of B] assms(3) by simp
  also have "\<dots> \<le> level_entry B n h'"
    using assms(1) by (intro level_entry_mono) simp
  also have "\<dots> \<le> node_pos B n h' k'" by (rule node_pos_ge)
  finally show ?thesis .
qed

lemma node_bytes_disjoint_index:
  assumes "k < k'" "a < node_pos B n h k + get_size B h"
  shows "a < node_pos B n h k'"
proof -
  have "get_size B h * Suc k \<le> get_size B h * k'"
    using assms(1) by (intro mult_le_mono2) simp
  with assms(2) show ?thesis by (simp add: node_pos_def)
qed

lemma node_bytes_disjoint:
  assumes "node_number h k \<le> n" "node_number h' k' \<le> n" "(h, k) \<noteq> (h', k')"
    and "node_pos B n h k \<le> a" "a < node_pos B n h k + get_size B h"
  shows "\<not> (node_pos B n h' k' \<le> a \<and> a < node_pos B n h' k' + get_size B h')"
proof -
  consider "h < h'" | "h' < h" | "h = h'" "k < k'" | "h = h'" "k' < k"
    using assms(3) by force
  then show ?thesis
  proof cases
    case 1
    then show ?thesis using node_bytes_disjoint_level [OF 1 assms(1) assms(5), of k'] by simp
  next
    case 2
    show ?thesis
    proof
      assume "node_pos B n h' k' \<le> a \<and> a < node_pos B n h' k' + get_size B h'"
      then have "a < node_pos B n h k"
        using node_bytes_disjoint_level [OF 2 assms(2), of a B k] by simp
      with assms(4) show False by simp
    qed
  next
    case 3
    then show ?thesis using node_bytes_disjoint_index [OF 3(2) assms(5)] by simp
  next
    case 4
    show ?thesis
    proof
      assume "node_pos B n h' k' \<le> a \<and> a < node_pos B n h' k' + get_size B h'"
      then have "a < node_pos B n h k"
        using node_bytes_disjoint_index [OF 4(2), of a B n h] 4(1) by simp
      with assms(4) show False by simp
    qed
  qed
qed

lemma get_size_le_8: "1 \<le> B \<Longrightarrow> h + B \<le> 64 \<Longrightarrow> get_size B h \<le> 8"
  by (simp add: get_size_def)

lemma get_size_bits: "1 \<le> B \<Longrightarrow> h + B \<le> 8 * get_size B h"
  by (simp add: get_size_def)

lemma get_size_pos: "0 < get_size B h"
  by (simp add: get_size_def)

lemma node_val_frame:
  assumes "get_size B h' \<le> 8"
    and "node_number h k \<le> n" "node_number h' k' \<le> n" "(h', k') \<noteq> (h, k)"
    and "outside_node B n h k m m'"
  shows "node_val B n m' h' k' = node_val B n m h' k'"
  unfolding node_val_def
proof (rule load_masked_cong [OF assms(1)])
  fix a assume "node_pos B n h' k' \<le> a" "a < node_pos B n h' k' + get_size B h'"
  then have "\<not> (node_pos B n h k \<le> a \<and> a < node_pos B n h k + get_size B h)"
    using node_bytes_disjoint [OF assms(3) assms(2) assms(4), of B a] by simp
  then show "m' a = m a" using assms(5) by (simp add: outside_node_def)
qed

lemma outside_node_store_bytes:
  "outside_node B n h k m (store_bytes m (node_pos B n h k) (get_size B h) v)"
  by (simp add: outside_node_def store_bytes_def)

lemma node_val_store_bytes:
  "get_size B h \<le> 8 \<Longrightarrow>
   node_val B n (store_bytes m (node_pos B n h k) (get_size B h) v) h k = v AND BYTE_MASK ! get_size B h"
  by (simp add: node_val_def load_store_bytes_masked)

lemma range_sum_concat:
  "a \<le> b \<Longrightarrow> b \<le> c \<Longrightarrow> range_sum v a b + range_sum v b c = range_sum v a c"
  by (simp add: range_sum_def sum.atLeastLessThan_concat)

lemma range_sum_single: "range_sum v a (Suc a) = unat (v ! a)"
  by (simp add: range_sum_def)

lemma range_sum_empty [simp]: "range_sum v a a = 0"
  by (simp add: range_sum_def)

lemma range_sum_bound:
  assumes "\<forall>x \<in> set v. unat x < 2 ^ B" "a + d \<le> length v"
  shows "range_sum v a (a + d) + d \<le> d * 2 ^ B"
  using assms(2)
proof (induction d)
  case 0
  then show ?case by simp
next
  case (Suc d)
  have "unat (v ! (a + d)) < 2 ^ B"
    using assms(1) Suc.prems by simp
  moreover have "range_sum v a (a + Suc d) = range_sum v a (a + d) + unat (v ! (a + d))"
    by (simp add: range_sum_def)
  ultimately show ?case using Suc by simp
qed

lemma node_number_Suc_index: "node_number l c + 2 ^ (l + 1) = node_number l (Suc c)"
  by (simp add: node_number_def)

lemma node_number_split:
  "node_number (i + 1 + d) c = node_number d c * 2 ^ (i + 1)"
  by (simp add: node_number_def power_add algebra_simps)

lemma node_number_prev:
  assumes "i < l"
  obtains q where "node_number l c = Suc q * 2 ^ (i + 1)"
proof -
  from assms obtain d where l: "l = i + 1 + d"
    using less_iff_Suc_add by auto
  obtain q where "node_number d c = Suc q"
    using node_number_pos [of d c] by (cases "node_number d c") auto
  then have "node_number l c = Suc q * 2 ^ (i + 1)"
    unfolding l node_number_split by simp
  then show ?thesis ..
qed

lemma pred_div_pow:
  fixes q i :: nat
  shows "(Suc q * 2 ^ (i + 1) - 1) div 2 ^ (i + 1) = q"
proof -
  have "Suc q * 2 ^ (i + 1) - 1 = q * 2 ^ (i + 1) + (2 ^ (i + 1) - 1)"
    by simp
  then show ?thesis
    by (simp only: div_mult_self3 [OF power_not_zero [of 2 "i + 1"]] div_less) simp
qed

lemma length_make_level: "length (make_level B n) = find_last_set n + 1"
  by (simp add: make_level_def)

lemma make_level_nth: "h \<le> find_last_set n \<Longrightarrow> make_level B n ! h = level_entry B n h"
  unfolding make_level_def by (subst nth_map_upt) simp_all

lemma valid_height: "node_number h k \<le> n \<Longrightarrow> h < find_last_set n"
proof -
  assume "node_number h k \<le> n"
  moreover have "2 ^ h \<le> node_number h k" by (simp add: node_number_def)
  ultimately show ?thesis by (simp add: less_find_last_set_iff)
qed

lemma node_range_bound:
  assumes "tree_bounds B n v" "node_number h k \<le> n"
  shows "range_sum v (k * 2 ^ (h + 1)) (node_number h k) < 2 ^ (h + B)"
proof -
  have "range_sum v (k * 2 ^ (h + 1)) (k * 2 ^ (h + 1) + 2 ^ h) + 2 ^ h \<le> 2 ^ h * 2 ^ B"
    using assms by (intro range_sum_bound) (simp_all add: tree_bounds_def node_number_def)
  moreover have "(0::nat) < 2 ^ h" by simp
  ultimately show ?thesis
    unfolding node_number_def power_add by linarith
qed

lemma valid_get_size:
  assumes "tree_bounds B n v" "node_number h k \<le> n"
  shows "get_size B h \<le> 8"
proof -
  have "h < find_last_set n" using assms(2) by (rule valid_height)
  then show ?thesis using assms(1) by (intro get_size_le_8) (simp_all add: tree_bounds_def)
qed

lemma node_range_fits:
  assumes "tree_bounds B n v" "node_number h k \<le> n"
  shows "range_sum v (k * 2 ^ (h + 1)) (node_number h k) < 2 ^ (8 * get_size B h)"
proof -
  have "h + B \<le> 8 * get_size B h"
    using assms(1) by (intro get_size_bits) (simp add: tree_bounds_def)
  then have "(2::nat) ^ (h + B) \<le> 2 ^ (8 * get_size B h)"
    by (rule power_increasing) simp
  with node_range_bound [OF assms] show ?thesis by (rule less_le_trans)
qed

lemma build_add_fold:
  assumes tb: "tree_bounds B n v"
    and node: "node_number l c \<le> n"
    and prev: "\<And>j k. j < l \<Longrightarrow> node_number j k \<le> n \<Longrightarrow> node_ok B n v m j k"
    and i: "i \<le> l"
  shows "\<exists>x. fold (build_add B (make_level B n) m) [0..<i]
               (node_number l c - 1, v ! (node_number l c - 1))
             = ((node_number l c - 1) div 2 ^ i, x) \<and>
             unat x = range_sum v (node_number l c - 2 ^ i) (node_number l c)"
  using i
proof (induction i)
  case 0
  have "Suc (node_number l c - 1) = node_number l c"
    using node_number_pos [of l c] by simp
  then have "range_sum v (node_number l c - 1) (node_number l c) = unat (v ! (node_number l c - 1))"
    using range_sum_single [of v "node_number l c - 1"] by simp
  then show ?case by simp
next
  case (Suc i)
  define node where "node = node_number l c"
  have il: "i < l" using Suc.prems by simp
  from Suc obtain x where
    fx: "fold (build_add B (make_level B n) m) [0..<i] (node - 1, v ! (node - 1))
           = ((node - 1) div 2 ^ i, x)"
    and ux: "unat x = range_sum v (node - 2 ^ i) node"
    unfolding node_def by auto
  obtain q where q: "node = Suc q * 2 ^ (i + 1)"
    unfolding node_def using il by (rule node_number_prev)
  have sidx: "drop_bit 1 ((node - 1) div 2 ^ i) = q"
  proof -
    have "(node - 1) div 2 ^ i div 2 ^ 1 = (node - 1) div 2 ^ (i + 1)"
      by (simp only: div_mult2_eq [symmetric] power_add)
    then show ?thesis
      unfolding q by (simp only: drop_bit_eq_div pred_div_pow)
  qed
  have lo: "q * 2 ^ (i + 1) = node - 2 ^ (i + 1)" unfolding q by simp
  have nn: "node_number i q = node - 2 ^ i"
    unfolding q node_number_def by simp
  have le: "node - 2 ^ (i + 1) \<le> node - 2 ^ i" "node - 2 ^ i \<le> node"
    by simp_all
  have valid: "node_number i q \<le> n" using node nn by (simp add: node_def)
  have "node_ok B n v m i q" using il valid by (rule prev)
  then have ok: "unat (node_val B n m i q) = range_sum v (node - 2 ^ (i + 1)) (node - 2 ^ i)"
    by (simp only: node_ok_def lo nn)
  have lh: "l < find_last_set n" using node by (rule valid_height)
  have lvl: "make_level B n ! i = level_entry B n i"
    using il lh by (intro make_level_nth) simp
  have total: "unat (node_val B n m i q) + unat x = range_sum v (node - 2 ^ (i + 1)) node"
    unfolding ok ux using le by (rule range_sum_concat)
  have rejoin: "node - 2 ^ (i + 1) + 2 ^ (i + 1) = node" unfolding q by simp
  have "node - 2 ^ (i + 1) + 2 ^ (i + 1) \<le> length v"
    unfolding rejoin using tb node by (simp add: tree_bounds_def node_def)
  moreover have "\<forall>x \<in> set v. unat x < 2 ^ B"
    using tb by (simp add: tree_bounds_def)
  ultimately have "range_sum v (node - 2 ^ (i + 1)) (node - 2 ^ (i + 1) + 2 ^ (i + 1)) + 2 ^ (i + 1)
          \<le> 2 ^ (i + 1) * 2 ^ B"
    by (intro range_sum_bound)
  then have b1: "range_sum v (node - 2 ^ (i + 1)) node + 2 ^ (i + 1) \<le> 2 ^ (i + 1) * 2 ^ B"
    by (simp only: rejoin)
  have "i + 1 + B \<le> LENGTH(64)" using tb il lh by (simp add: tree_bounds_def)
  then have "(2::nat) ^ (i + 1 + B) \<le> 2 ^ LENGTH(64)" by (rule power_increasing) simp
  then have b2: "(2::nat) ^ (i + 1) * 2 ^ B \<le> 2 ^ LENGTH(64)"
    by (simp only: power_add [of 2 "i + 1" B])
  have b3: "(0::nat) < 2 ^ (i + 1)" by simp
  from b1 b2 b3 total have "unat x + unat (node_val B n m i q) < 2 ^ LENGTH(64)"
    by linarith
  then have "unat (x + node_val B n m i q) = range_sum v (node - 2 ^ (i + 1)) node"
    using total by (simp add: unat_add_lem [THEN iffD1])
  moreover have "fold (build_add B (make_level B n) m) [0..<Suc i] (node - 1, v ! (node - 1))
      = (q, x + node_val B n m i q)"
  proof -
    have "fold (build_add B (make_level B n) m) [0..<Suc i] (node - 1, v ! (node - 1))
        = build_add B (make_level B n) m i
            (fold (build_add B (make_level B n) m) [0..<i] (node - 1, v ! (node - 1)))"
      by simp
    also have "\<dots> = (q, x + node_val B n m i q)"
      by (simp only: fx build_add_def Let_def prod.case sidx lvl node_val_def node_pos_def)
    finally show ?thesis .
  qed
  moreover have "(node - 1) div 2 ^ Suc i = q"
    unfolding q using pred_div_pow [of q i] by simp
  ultimately show ?case unfolding node_def by simp
qed

lemma levels_okD:
  "levels_ok B n v m l c \<Longrightarrow> node_number j k \<le> n \<Longrightarrow> j < l \<or> (j = l \<and> k < c)
   \<Longrightarrow> node_ok B n v m j k"
  unfolding levels_ok_def by blast

lemma build_node_eq:
  assumes tb: "tree_bounds B n v"
    and node: "node_number l c \<le> n"
    and prev: "\<And>j k. j < l \<Longrightarrow> node_number j k \<le> n \<Longrightarrow> node_ok B n v m j k"
  shows "\<exists>x. build_node B (make_level B n) v l (node_number l c) m
               = store_bytes m (node_pos B n l c) (get_size B l) x \<and>
             unat x = range_sum v (c * 2 ^ (l + 1)) (node_number l c)"
proof -
  obtain x where
    fx: "fold (build_add B (make_level B n) m) [0..<l] (node_number l c - 1, v ! (node_number l c - 1))
           = ((node_number l c - 1) div 2 ^ l, x)"
    and ux: "unat x = range_sum v (node_number l c - 2 ^ l) (node_number l c)"
    using build_add_fold [OF tb node prev, of l] by auto
  have lo: "node_number l c - 2 ^ l = c * 2 ^ (l + 1)"
    by (simp add: node_number_def)
  have s8: "get_size B l \<le> 8" using tb node by (rule valid_get_size)
  have lh: "l < find_last_set n" using node by (rule valid_height)
  have lvl: "make_level B n ! l = level_entry B n l"
    using lh by (intro make_level_nth) simp
  have db: "drop_bit (l + 1) (node_number l c) = c"
    using drop_bit_node_number [of l c] by (simp only: add.commute)
  define p where "p = node_pos B n l c"
  define M where "M = BYTE_MASK ! get_size B l"
  have "build_node B (make_level B n) v l (node_number l c) m
      = store64 (store64 m p (load64 m p AND NOT M)) p
          (load64 (store64 m p (load64 m p AND NOT M)) p OR (x AND M))"
    by (simp only: build_node_def Let_def fx prod.case lvl db p_def M_def node_pos_def)
  also have "\<dots> = store64 m p ((load64 m p AND NOT M) OR (x AND M))"
    by (simp only: load64_store64_same store64_twice)
  also have "\<dots> = store_bytes m p (get_size B l) x"
    unfolding M_def using s8 by (rule masked_store_eq)
  finally show ?thesis using ux lo by (auto simp only: p_def)
qed

lemma build_node_ok:
  assumes tb: "tree_bounds B n v"
    and node: "node_number l c \<le> n"
    and ok: "levels_ok B n v m l c"
  shows "levels_ok B n v (build_node B (make_level B n) v l (node_number l c) m) l (Suc c)"
proof -
  have prev: "\<And>j k. j < l \<Longrightarrow> node_number j k \<le> n \<Longrightarrow> node_ok B n v m j k"
    using ok by (auto dest: levels_okD)
  obtain x where
    m': "build_node B (make_level B n) v l (node_number l c) m
           = store_bytes m (node_pos B n l c) (get_size B l) x"
    and ux: "unat x = range_sum v (c * 2 ^ (l + 1)) (node_number l c)"
    using build_node_eq [OF tb node prev] by auto
  define m' where "m' = store_bytes m (node_pos B n l c) (get_size B l) x"
  have s8: "get_size B l \<le> 8" using tb node by (rule valid_get_size)
  have "unat x < 2 ^ (8 * get_size B l)"
    unfolding ux using tb node by (rule node_range_fits)
  then have "x AND BYTE_MASK ! get_size B l = x"
    using s8 by (intro and_BYTE_MASK_id)
  then have "node_val B n m' l c = x"
    unfolding m'_def using node_val_store_bytes [OF s8, where n = n and m = m and k = c and v = x] by simp
  then have new: "node_ok B n v m' l c"
    by (simp add: node_ok_def ux)
  have out: "outside_node B n l c m m'"
    unfolding m'_def by (rule outside_node_store_bytes)
  have old: "node_ok B n v m' j k"
    if "node_number j k \<le> n" "(j, k) \<noteq> (l, c)" "node_ok B n v m j k" for j k
  proof -
    have "get_size B j \<le> 8" using tb that(1) by (rule valid_get_size)
    then have "node_val B n m' j k = node_val B n m j k"
      using node that(1) that(2) out by (rule node_val_frame)
    with that(3) show ?thesis by (simp add: node_ok_def)
  qed
  have "levels_ok B n v m' l (Suc c)"
    unfolding levels_ok_def
  proof (intro allI impI)
    fix j k assume v: "node_number j k \<le> n" and w: "j < l \<or> j = l \<and> k < Suc c"
    show "node_ok B n v m' j k"
    proof (cases "(j, k) = (l, c)")
      case True
      with new show ?thesis by simp
    next
      case False
      with w have "j < l \<or> j = l \<and> k < c" by auto
      with ok v have "node_ok B n v m j k" by (rule levels_okD)
      with v False show ?thesis by (rule old)
    qed
  qed
  then show ?thesis by (simp only: m' m'_def)
qed

lemma node_number_mono: "k \<le> k' \<Longrightarrow> node_number h k \<le> node_number h k'"
  by (simp add: node_number_def)

lemma build_level_ok:
  assumes tb: "tree_bounds B n v"
  shows "levels_ok B n v m l c \<Longrightarrow>
         levels_ok B n v (build_level B n (make_level B n) v l (node_number l c) m) (Suc l) 0"
proof (induction "Suc n - node_number l c" arbitrary: c m rule: less_induct)
  case less
  show ?case
  proof (cases "node_number l c \<le> n")
    case True
    have step: "levels_ok B n v (build_node B (make_level B n) v l (node_number l c) m) l (Suc c)"
      using tb True less.prems by (rule build_node_ok)
    have "node_number l c < node_number l (Suc c)"
      by (simp add: node_number_def)
    moreover have "node_number l c < Suc n" using True by simp
    ultimately have "Suc n - node_number l (Suc c) < Suc n - node_number l c"
      by (rule diff_less_mono2)
    then have "levels_ok B n v
        (build_level B n (make_level B n) v l (node_number l (Suc c))
           (build_node B (make_level B n) v l (node_number l c) m)) (Suc l) 0"
      using step by (rule less.hyps)
    then show ?thesis
      using True by (subst build_level.simps) (simp only: node_number_Suc_index if_True)
  next
    case False
    have "levels_ok B n v m (Suc l) 0"
      unfolding levels_ok_def
    proof (intro allI impI)
      fix j k assume v: "node_number j k \<le> n" and w: "j < Suc l \<or> j = Suc l \<and> k < 0"
      have "k < c" if "j = l"
      proof (rule ccontr)
        assume "\<not> k < c"
        then have "node_number l c \<le> node_number l k" by (intro node_number_mono) simp
        with v that False show False by simp
      qed
      with w have "j < l \<or> j = l \<and> k < c" by auto
      with less.prems v show "node_ok B n v m j k" by (rule levels_okD)
    qed
    then show ?thesis
      using False by (subst build_level.simps) simp
  qed
qed

lemma build_levels_ok:
  assumes tb: "tree_bounds B n v" and "levels_ok B n v m 0 0"
  shows "L \<le> find_last_set n \<Longrightarrow>
         levels_ok B n v
           (fold (\<lambda>l m. build_level B n (make_level B n) v l (2 ^ l) m) [0..<L] m) L 0"
proof (induction L)
  case 0
  then show ?case using assms(2) by simp
next
  case (Suc L)
  have "2 ^ L = node_number L 0" by (simp add: node_number_def)
  with Suc build_level_ok [OF tb, of _ L 0] show ?case by simp
qed

lemma constructor_ok:
  assumes tb: "tree_bounds B n v" and node: "node_number h k \<le> n"
  shows "node_ok B n v (tree (ByteFenwickTree B env v n)) h k"
proof -
  define m0 :: memory where "m0 = (\<lambda>a. if a < make_level B n ! find_last_set n + 3 then 0 else env a)"
  have "levels_ok B n v m0 0 0" by (simp add: levels_ok_def)
  with tb have "levels_ok B n v
      (fold (\<lambda>l m. build_level B n (make_level B n) v l (2 ^ l) m) [0..<find_last_set n] m0)
      (find_last_set n) 0"
    by (rule build_levels_ok) simp
  moreover have "h < find_last_set n" using node by (rule valid_height)
  ultimately show ?thesis
    using node by (simp add: levels_ok_def ByteFenwickTree_def Let_def length_make_level m0_def)
qed

lemma xor_aligned:
  fixes a r j :: nat
  assumes "r < 2 ^ j"
  shows "(a * 2 ^ j + r) XOR (a * 2 ^ j) = r"
proof -
  have r: "take_bit j r = r" using assms by (simp add: take_bit_nat_eq_self_iff)
  have br: "bit r n \<Longrightarrow> n < j" for n
    using r by (metis bit_take_bit_iff)
  have "push_bit j a AND r = 0"
    by (rule bit_eqI) (auto simp add: bit_simps dest: br)
  then have "push_bit j a + r = push_bit j a OR r"
    by (rule disjunctive_add_eq_or)
  then have "(a * 2 ^ j + r) XOR (a * 2 ^ j) = (push_bit j a OR r) XOR push_bit j a"
    by (simp add: push_bit_eq_mult)
  also have "\<dots> = r"
    by (rule bit_eqI) (auto simp add: bit_simps dest: br)
  finally show ?thesis .
qed

lemma find_last_set_bounds:
  assumes "0 < r"
  shows "2 ^ (find_last_set r - 1) \<le> r" "r < 2 ^ find_last_set r"
proof -
  show "r < 2 ^ find_last_set r"
    using find_last_set_le_iff [of r "find_last_set r"] by simp
  have "0 < find_last_set r"
    using assms find_last_set_le_iff [of r 0] by simp
  then have "\<not> find_last_set r \<le> find_last_set r - 1" by simp
  then show "2 ^ (find_last_set r - 1) \<le> r"
    using find_last_set_le_iff [of r "find_last_set r - 1"] by simp
qed

lemma find_last_set_pos: "0 < r \<Longrightarrow> 0 < find_last_set r"
  by (subst find_last_set.simps) simp

lemma drop_bit_Suc_node_number: "drop_bit (Suc h) (node_number h k) = k"
  using drop_bit_node_number [of h k] by simp

lemma constructor_represents:
  "tree_bounds B n v \<Longrightarrow> represents (ByteFenwickTree B env v n) B n v"
  unfolding represents_def
  by (auto simp add: constructor_ok) (simp_all add: ByteFenwickTree_def Let_def)

lemma represents_node_val:
  assumes "represents t B n v" "node_number h k \<le> n"
  shows "unat (load64 (tree t) (node_byte_pos t (node_number h k))
                AND BYTE_MASK ! get_size (LEAF_BITSIZE t) (node_height (node_number h k)))
         = range_sum v (k * 2 ^ (h + 1)) (node_number h k)"
proof -
  have "h < find_last_set n" using assms(2) by (rule valid_height)
  then have "make_level B n ! h = level_entry B n h"
    by (intro make_level_nth) simp
  moreover have "node_ok B n v (tree t) h k"
    using assms by (simp add: represents_def)
  ultimately show ?thesis
    using assms(1)
    by (simp add: represents_def node_byte_pos_def node_height_node_number Let_def
        drop_bit_Suc_node_number node_ok_def node_val_def node_pos_def)
qed

lemma prefix_bound:
  assumes "tree_bounds B n v" "i \<le> n"
  shows "range_sum v 0 i < 2 ^ 64"
proof -
  have "range_sum v 0 (0 + i) + i \<le> i * 2 ^ B"
    using assms by (intro range_sum_bound) (simp_all add: tree_bounds_def)
  then have "range_sum v 0 i \<le> i * 2 ^ B" by simp
  also have "\<dots> \<le> n * 2 ^ B" using assms(2) by simp
  also have "\<dots> < 2 ^ find_last_set n * 2 ^ B"
    using find_last_set_le_iff [of n "find_last_set n"] by simp
  also have "\<dots> = 2 ^ (find_last_set n + B)" by (simp add: power_add)
  also have "\<dots> \<le> 2 ^ 64"
    using assms(1) by (intro power_increasing) (simp_all add: tree_bounds_def)
  finally show ?thesis .
qed

lemma get_loop_correct:
  assumes tb: "tree_bounds B n v" and rep: "represents t B n v"
  shows "0 < r \<Longrightarrow> index + r \<le> n \<Longrightarrow> 2 ^ find_last_set r dvd index \<Longrightarrow>
         unat acc = range_sum v 0 index \<Longrightarrow>
         \<exists>s. get_loop t (index + r) index acc = Some s \<and> unat s = range_sum v 0 (index + r)"
proof (induction r arbitrary: index acc rule: less_induct)
  case (less r)
  define j where "j = find_last_set r - 1"
  have fj: "find_last_set r = j + 1"
    using find_last_set_pos [OF less.prems(1)] by (simp add: j_def)
  have lo: "2 ^ j \<le> r"
    unfolding j_def using less.prems(1) by (rule find_last_set_bounds)
  have hi: "r < 2 ^ (j + 1)"
    using find_last_set_bounds(2) [OF less.prems(1)] by (simp only: fj)
  obtain a where a: "index = a * 2 ^ (j + 1)"
    using less.prems(3) unfolding fj by (auto simp add: dvd_def mult.commute)
  have x1: "(index + r) XOR index = r"
    unfolding a using hi by (rule xor_aligned)
  have mls: "mask_last_set r = 2 ^ j"
    using less.prems(1) by (simp add: mask_last_set_def j_def)
  define index' where "index' = node_number j a"
  have i': "index + mask_last_set ((index + r) XOR index) = index'"
    unfolding x1 mls by (simp add: index'_def a node_number_def)
  define r' where "r' = r - 2 ^ j"
  have r'lt: "r' < 2 ^ j" using hi by (simp add: r'_def)
  have idx: "index + r = index' + r'"
    using lo by (simp add: index'_def a node_number_def r'_def)
  have x2: "(index + r) XOR index' = r'"
  proof -
    have "index' = (2 * a + 1) * 2 ^ j" by (simp add: index'_def node_number_def algebra_simps)
    then show ?thesis unfolding idx using xor_aligned [OF r'lt, of "2 * a + 1"] by simp
  qed
  have valid: "node_number j a \<le> n" using less.prems(2) idx by (simp add: index'_def)
  have nv: "unat (load64 (tree t) (node_byte_pos t index')
                AND BYTE_MASK ! get_size (LEAF_BITSIZE t) (node_height index'))
         = range_sum v index index'"
    unfolding index'_def using represents_node_val [OF rep valid] by (simp add: a)
  define acc' where "acc' = acc + (load64 (tree t) (node_byte_pos t index')
                AND BYTE_MASK ! get_size (LEAF_BITSIZE t) (node_height index'))"
  have le: "index \<le> index'" by (simp add: index'_def a node_number_def)
  have sum: "range_sum v 0 index + range_sum v index index' = range_sum v 0 index'"
    using le by (intro range_sum_concat) simp_all
  have "range_sum v 0 index' < 2 ^ LENGTH(64)"
    using prefix_bound [OF tb, of index'] valid by (simp add: index'_def)
  then have acc': "unat acc' = range_sum v 0 index'"
    unfolding acc'_def using sum nv less.prems(4)
    by (simp add: unat_add_lem [THEN iffD1])
  have unfold: "get_loop t (index + r) index acc
      = (if r' \<noteq> 0 then get_loop t (index + r) index' acc' else Some acc')"
    by (subst get_loop.simps) (simp only: Let_def i' x2 acc'_def)
  show ?case
  proof (cases "r' = 0")
    case True
    then show ?thesis using unfold acc' idx by simp
  next
    case False
    have "find_last_set r' \<le> j" using r'lt by (simp add: find_last_set_le_iff)
    then have "(2::nat) ^ find_last_set r' dvd 2 ^ j" by (rule le_imp_power_dvd)
    moreover have "(2::nat) ^ j dvd index'"
      by (simp add: index'_def node_number_def)
    ultimately have d: "2 ^ find_last_set r' dvd index'" by (rule dvd_trans)
    have "(0::nat) < 2 ^ j" by simp
    with lo have "r' < r" unfolding r'_def by linarith
    moreover have "0 < r'" using False by simp
    moreover have "index' + r' \<le> n" using less.prems(2) idx by simp
    ultimately have "\<exists>s. get_loop t (index' + r') index' acc' = Some s \<and>
        unat s = range_sum v 0 (index' + r')"
      using d acc' by (rule less.IH)
    then show ?thesis using unfold False idx by simp
  qed
qed

lemma get_represents:
  assumes "tree_bounds B n v" "represents t B n v" "i < n"
  shows "\<exists>s. get t i = Some s \<and> unat s = range_sum v 0 (Suc i)"
proof -
  have "\<exists>s. get_loop t (0 + Suc i) 0 0 = Some s \<and> unat s = range_sum v 0 (0 + Suc i)"
    using assms by (intro get_loop_correct) (simp_all add: Suc_le_eq)
  then show ?thesis by (simp add: get_def)
qed

lemma find_step_eq:
  "find_step t complement height (node, idx, val) =
     (if val \<ge> candidate_value t complement height idx
      then (node + 2 ^ height, 2 * idx + 1, val - candidate_value t complement height idx)
      else (node, 2 * idx, val))"
  by (simp add: find_step_def candidate_value_def Let_def push_bit_eq_mult)

lemma rev_upt_Suc: "rev [0..<Suc h] = h # rev [0..<h]"
  by simp

lemma valid_below_end:
  assumes "node_number h k \<le> n"
  shows "node_pos B n h k < level_entry B n (find_last_set n)"
proof -
  have "node_pos B n h k < node_pos B n h k + get_size B h"
    using get_size_pos [of B h] by simp
  also have "\<dots> \<le> level_entry B n (Suc h)" using assms by (rule node_end_le)
  also have "\<dots> \<le> level_entry B n (find_last_set n)"
    using valid_height [OF assms] by (intro level_entry_mono) simp
  finally show ?thesis .
qed

lemma candidate_value_valid:
  assumes "represents t B n v" "node_number h k \<le> n"
  shows "candidate_value t False h k = node_val B n (tree t) h k"
proof -
  have h: "h < find_last_set n" using assms(2) by (rule valid_height)
  then have "make_level B n ! h = level_entry B n h"
    by (intro make_level_nth) simp
  moreover have "make_level B n ! find_last_set n = level_entry B n (find_last_set n)"
    by (intro make_level_nth) simp
  moreover note valid_below_end [OF assms(2), of B]
  ultimately show ?thesis
    using assms(1)
    by (simp add: candidate_value_def represents_def Let_def length_make_level
        node_val_def node_pos_def)
qed

lemma represents_node_ok:
  "represents t B n v \<Longrightarrow> node_number h k \<le> n \<Longrightarrow> node_ok B n v (tree t) h k"
  unfolding represents_def by blast

lemma candidate_value_sum:
  assumes "represents t B n v" "node_number h k \<le> n"
  shows "unat (candidate_value t False h k) = range_sum v (k * 2 ^ (h + 1)) (node_number h k)"
  using represents_node_ok [OF assms] candidate_value_valid [OF assms]
  by (simp only: node_ok_def)

lemma range_sum_mono: "a \<le> b \<Longrightarrow> b \<le> c \<Longrightarrow> range_sum v a b \<le> range_sum v a c"
  using range_sum_concat [of a b c v] by simp

lemma find_walk_left:
  assumes rep: "represents t B n v" and n: "0 < n" and lt: "unat val < unat (v ! 0)"
  shows "h \<le> find_last_set n \<Longrightarrow>
         fold (find_step t False) (rev [0..<h]) (0, 0, val) = (0, 0, val)"
proof (induction h)
  case 0
  then show ?case by simp
next
  case (Suc h)
  have valid: "node_number h 0 \<le> n"
    using Suc.prems by (simp add: node_number_def less_find_last_set_iff Suc_le_eq)
  have "unat (v ! 0) = range_sum v 0 (Suc 0)" by (simp add: range_sum_single)
  also have "\<dots> \<le> range_sum v 0 (node_number h 0)"
    by (intro range_sum_mono) (simp_all add: node_number_def Suc_le_eq)
  also have "\<dots> = unat (candidate_value t False h 0)"
    using candidate_value_sum [OF rep valid] by simp
  finally have "\<not> candidate_value t False h 0 \<le> val"
    using lt by (simp add: word_le_nat_alt)
  then have "find_step t False h (0, 0, val) = (0, 0, val)"
    by (simp add: find_step_eq)
  with Suc show ?case by (simp only: rev_upt_Suc fold_simps)
qed

lemma find_left:
  assumes "represents t B n v" "0 < n" "unat val < unat (v ! 0)"
  shows "find_walk t False val = (0, 0, val)" "find t val False = - 1"
proof -
  have "length (level t) - 1 = find_last_set n"
    using assms(1) by (simp add: represents_def length_make_level)
  then show w: "find_walk t False val = (0, 0, val)"
    using find_walk_left [OF assms, of "find_last_set n"] by (simp add: find_walk_def)
  show "find t val False = - 1"
    by (simp add: find_def w)
qed

section \<open>Accesses and the allocation\<close>

text \<open>
  Claim C6: every 8-byte access at the byte position of a valid node stays inside the
  allocation of \<open>level[levels] + 3\<close> bytes. The tree over one value is allocated with
  4 bytes; its only node is at byte position 0, and \<open>get(0)\<close> returns the 64-bit
  load at that position, masked: the load covers bytes 0 to 7, four of them behind the
  allocation.
\<close>

theorem get_loads_behind_allocation:
  "tree_alloc one_leaf = 4 \<and> node_byte_pos one_leaf 1 = 0 \<and>
   get one_leaf 0 = Some (load64 (tree one_leaf) (node_byte_pos one_leaf 1) AND BYTE_MASK ! get_size 7 0) \<and>
   tree_alloc one_leaf < node_byte_pos one_leaf 1 + 8"
  by code_simp

lemma unat_minus_one_u64: "unat (- 1 :: u64) = 2 ^ 64 - 1"
  by (simp add: unsigned_minus_1_eq_mask mask_eq_exp_minus_1)

lemma find_last_set_3: "find_last_set 3 = 2"
  by (simp add: find_last_set.simps)

lemma tree_bounds_123: "tree_bounds 7 3 [1, 2, 3]"
  by (simp add: tree_bounds_def find_last_set_3)

lemma range_sum_atMost: "range_sum v 0 (Suc i) = (\<Sum>j\<le>i. unat (v ! j))"
  by (simp add: range_sum_def atLeast0LessThan lessThan_Suc_atMost)

section \<open>Prefix sums after construction\<close>

text \<open>
  Claim C2: immediately after a \<open>ByteFenwickTree\<close> is constructed from a sequence
  \<open>v[0..N)\<close> of bounded values, \<open>get(i)\<close> returns the prefix sum
  \<open>v[0] + \<dots> + v[i]\<close> for every \<open>i < N\<close>. The loop of \<open>get\<close> terminates
  (the result is \<open>Some\<close>), and the sum is the sum of natural numbers: it does not wrap.
  The bound on the values is \<open>v[i] < 2 ^ LEAF_BITSIZE\<close>, which holds whether the spec's
  leaf bound is read as \<open>LEAF_BITSIZE\<close> or as \<open>2 ^ (LEAF_BITSIZE - 1)\<close>;
  \<open>tree_bounds\<close> also keeps the sizes in the range where the \<open>int\<close> shifts and the
  table \<open>BYTE_MASK\<close> of the source are defined. What the memory behind the buffer
  holds does not matter.
\<close>

theorem constructor_get_prefix_sum:
  assumes "tree_bounds B n v" and "i < n"
  shows "\<exists>s. get (ByteFenwickTree B env v n) i = Some s \<and> unat s = (\<Sum>j\<le>i. unat (v ! j))"
proof -
  have "represents (ByteFenwickTree B env v n) B n v"
    using assms(1) by (rule constructor_represents)
  with assms(1) have "\<exists>s. get (ByteFenwickTree B env v n) i = Some s \<and> unat s = range_sum v 0 (Suc i)"
    using assms(2) by (rule get_represents)
  then show ?thesis by (simp only: range_sum_atMost)
qed

theorem constructor_get_prefix_sum_witness:
  "tree_bounds 7 3 [1, 2, 3] \<and> (2::nat) < 3 \<and>
   (\<exists>s. get (ByteFenwickTree 7 zero_memory [1, 2, 3] 3) 2 = Some s \<and> unat s = 6)"
proof -
  have tb: "tree_bounds 7 3 [1, 2, 3]" by (rule tree_bounds_123)
  have i: "(2::nat) < 3" by simp
  have "{..2::nat} = {0, 1, 2}" by auto
  then have "(\<Sum>j\<le>2::nat. unat ([1, 2, 3 :: u64] ! j)) = 6" by simp
  with constructor_get_prefix_sum [OF tb i, of zero_memory] tb i show ?thesis by simp
qed

section \<open>Searching below the first value\<close>

text \<open>
  Claim C10: for a tree built from a sequence with \<open>v[0] > 0\<close> and every
  \<open>t < v[0]\<close>, \<open>find(t)\<close> descends left at every level (the walk ends as it began,
  with \<open>node = 0\<close>, \<open>idx = 0\<close> and \<open>val\<close> unchanged) and returns
  \<open>node - 1\<close> computed in \<open>size_t\<close>, which is \<open>2 ^ 64 - 1\<close> and not an index
  below \<open>N\<close>.
\<close>

theorem find_below_first_value:
  assumes "tree_bounds B n v" and "0 < n" and "unat val < unat (v ! 0)"
  shows "find_walk (ByteFenwickTree B env v n) False val = (0, 0, val) \<and>
         find (ByteFenwickTree B env v n) val False = - 1 \<and>
         unat (find (ByteFenwickTree B env v n) val False) = 2 ^ 64 - 1 \<and>
         \<not> unat (find (ByteFenwickTree B env v n) val False) < n"
proof -
  have rep: "represents (ByteFenwickTree B env v n) B n v"
    using assms(1) by (rule constructor_represents)
  have w: "find_walk (ByteFenwickTree B env v n) False val = (0, 0, val)"
    and f: "find (ByteFenwickTree B env v n) val False = - 1"
    using find_left [OF rep assms(2,3)] by simp_all
  have u: "unat (- 1 :: u64) = 2 ^ 64 - 1" by (rule unat_minus_one_u64)
  have "n < 2 ^ 30" using assms(1) by (simp add: tree_bounds_def)
  then have "\<not> unat (- 1 :: u64) < n" unfolding u by simp
  with w f u show ?thesis by simp
qed

theorem find_below_first_value_witness:
  "tree_bounds 7 3 [1, 2, 3] \<and> (0::nat) < 3 \<and> unat (0 :: u64) < unat ([1, 2, 3 :: u64] ! 0) \<and>
   find_walk (ByteFenwickTree 7 zero_memory [1, 2, 3] 3) False 0 = (0, 0, 0) \<and>
   find (ByteFenwickTree 7 zero_memory [1, 2, 3] 3) 0 False = - 1"
proof -
  have tb: "tree_bounds 7 3 [1, 2, 3]" by (rule tree_bounds_123)
  have n: "(0::nat) < 3" by simp
  have t: "unat (0 :: u64) < unat ([1, 2, 3 :: u64] ! 0)" by simp
  from find_below_first_value [OF tb n t, of zero_memory] tb show ?thesis by simp
qed

lemma walk_invD:
  assumes "walk_inv v t P h (node, idx, val)"
  shows "node = idx * 2 ^ h" "node \<le> P" "P < node + 2 ^ h"
    "range_sum v 0 node \<le> unat t" "unat val = unat t - range_sum v 0 node"
  using assms unfolding walk_inv_def by blast+

lemma walk_invI:
  assumes "node = idx * 2 ^ h" "node \<le> P" "P < node + 2 ^ h"
    "range_sum v 0 node \<le> unat t" "unat val = unat t - range_sum v 0 node"
  shows "walk_inv v t P h (node, idx, val)"
  using assms unfolding walk_inv_def by blast

lemma perfect_valid:
  fixes n L g idx :: nat
  assumes "n + 1 = 2 ^ L" "g < L" "idx * 2 ^ (g + 1) < 2 ^ L"
  shows "node_number g idx \<le> n"
proof -
  obtain d where L: "L = d + (g + 1)"
    using assms(2) by (metis Suc_eq_plus1 add.commute less_iff_Suc_add add.left_commute)
  have "idx * 2 ^ (g + 1) < 2 ^ d * 2 ^ (g + 1)"
    using assms(3) by (simp only: L power_add)
  then have "idx < 2 ^ d" by simp
  then have "Suc idx \<le> 2 ^ d" by simp
  then have "Suc idx * 2 ^ (g + 1) \<le> 2 ^ d * 2 ^ (g + 1)"
    by (rule mult_le_mono1)
  then have "idx * 2 ^ (g + 1) + 2 ^ (g + 1) \<le> n + 1"
    by (simp only: assms(1) L power_add) simp
  moreover have "(2::nat) ^ g < 2 ^ (g + 1)" by simp
  ultimately show ?thesis unfolding node_number_def by linarith
qed

lemma perfect_find_last_set:
  assumes "n + 1 = 2 ^ L"
  shows "find_last_set n = L"
proof (rule antisym)
  have "n < 2 ^ L" using assms by simp
  then show "find_last_set n \<le> L" by (simp add: find_last_set_le_iff)
  show "L \<le> find_last_set n"
  proof (cases L)
    case 0
    then show ?thesis by simp
  next
    case (Suc L')
    have "(2::nat) ^ L' < 2 ^ Suc L'" by simp
    then have "2 ^ L' \<le> n" using assms Suc by simp
    then have "L' < find_last_set n" by (simp add: less_find_last_set_iff)
    then show ?thesis using Suc by simp
  qed
qed

lemma prefix_split: "a \<le> b \<Longrightarrow> range_sum v 0 a + range_sum v a b = range_sum v 0 b"
  by (rule range_sum_concat) simp_all

lemma prefix_mono: "a \<le> b \<Longrightarrow> range_sum v 0 a \<le> range_sum v 0 b"
  using prefix_split [of a b v] by simp

lemma walk_inv_step:
  assumes rep: "represents t B n v"
    and perfect: "n + 1 = 2 ^ L" and g: "g < L" and P: "P < n"
    and lo: "range_sum v 0 P \<le> unat val0" and hi: "unat val0 < range_sum v 0 (Suc P)"
    and inv: "walk_inv v val0 P (Suc g) s"
  shows "walk_inv v val0 P g (find_step t False g s)"
proof -
  obtain node idx val where s: "s = (node, idx, val)" by (cases s)
  have node: "node = idx * 2 ^ (g + 1)" and nP: "node \<le> P" and Pn: "P < node + 2 ^ (g + 1)"
    and sn: "range_sum v 0 node \<le> unat val0" and uv: "unat val = unat val0 - range_sum v 0 node"
    using walk_invD [OF inv [unfolded s]] by simp_all
  define c where "c = node_number g idx"
  have c: "c = node + 2 ^ g" by (simp add: c_def node_number_def node)
  have "idx * 2 ^ (g + 1) < 2 ^ L"
    using nP P perfect node by simp
  with perfect g have valid: "node_number g idx \<le> n" by (rule perfect_valid)
  define x where "x = candidate_value t False g idx"
  have ux: "unat x = range_sum v node c"
    unfolding x_def c_def node by (rule candidate_value_sum [OF rep valid])
  have sc: "range_sum v 0 node + unat x = range_sum v 0 c"
    unfolding ux by (rule prefix_split) (simp add: c)
  have step: "find_step t False g s =
      (if x \<le> val then (c, 2 * idx + 1, val - x) else (node, 2 * idx, val))"
    by (simp add: s find_step_eq x_def c)
  show ?thesis
  proof (cases "c \<le> P")
    case True
    then have "range_sum v 0 c \<le> range_sum v 0 P" by (rule prefix_mono)
    with lo have cle: "range_sum v 0 c \<le> unat val0" by simp
    with sc uv have le: "unat x \<le> unat val" by simp
    then have xv: "x \<le> val" by (simp add: word_le_nat_alt)
    have "unat (val - x) = unat val - unat x" using xv by (rule unat_sub)
    with sc uv cle have uv': "unat (val - x) = unat val0 - range_sum v 0 c" by simp
    have "c = (2 * idx + 1) * 2 ^ g" by (simp add: c node algebra_simps)
    moreover have "P < c + 2 ^ g" using Pn by (simp add: c)
    ultimately have "walk_inv v val0 P g (c, 2 * idx + 1, val - x)"
      using True cle uv' by (intro walk_invI)
    then show ?thesis using xv by (simp add: step)
  next
    case False
    then have "Suc P \<le> c" by simp
    then have "range_sum v 0 (Suc P) \<le> range_sum v 0 c" by (rule prefix_mono)
    with hi have "unat val0 < range_sum v 0 c" by simp
    with sc uv sn have "unat val < unat x" by simp
    then have xv: "\<not> x \<le> val" by (simp add: word_le_nat_alt)
    have "node = 2 * idx * 2 ^ g" by (simp add: node)
    moreover have "P < node + 2 ^ g" using False by (simp add: c)
    ultimately have "walk_inv v val0 P g (node, 2 * idx, val)"
      using nP sn uv by (intro walk_invI)
    then show ?thesis using xv by (simp add: step)
  qed
qed

lemma walk_inv_fold:
  assumes rep: "represents t B n v"
    and perfect: "n + 1 = 2 ^ L" and P: "P < n"
    and lo: "range_sum v 0 P \<le> unat val0" and hi: "unat val0 < range_sum v 0 (Suc P)"
  shows "h \<le> L \<Longrightarrow> walk_inv v val0 P h s \<Longrightarrow>
         walk_inv v val0 P 0 (fold (find_step t False) (rev [0..<h]) s)"
proof (induction h arbitrary: s)
  case 0
  then show ?case by simp
next
  case (Suc h)
  have "h < L" using Suc.prems(1) by simp
  with rep perfect have "walk_inv v val0 P h (find_step t False h s)"
    using P lo hi Suc.prems(2) by (rule walk_inv_step)
  with Suc show ?case by (simp only: rev_upt_Suc fold_simps)
qed

lemma find_perfect:
  assumes tb: "tree_bounds B n v" and rep: "represents t B n v"
    and perfect: "n + 1 = 2 ^ L" and P: "P < n"
    and lo: "range_sum v 0 P \<le> unat val0" and hi: "unat val0 < range_sum v 0 (Suc P)"
  shows "find t val0 False = of_nat P - 1"
proof -
  have len: "length (level t) - 1 = L"
    using rep perfect_find_last_set [OF perfect] by (simp add: represents_def length_make_level)
  have "P < 2 ^ L" using P perfect by simp
  then have "walk_inv v val0 P L (0, 0, val0)" by (intro walk_invI) simp_all
  then have "walk_inv v val0 P 0 (fold (find_step t False) (rev [0..<L]) (0, 0, val0))"
    by (rule walk_inv_fold [OF rep perfect P lo hi order_refl])
  then have "walk_inv v val0 P 0 (find_walk t False val0)"
    by (simp only: find_walk_def len)
  moreover obtain node idx val where w: "find_walk t False val0 = (node, idx, val)"
    by (cases "find_walk t False val0")
  ultimately have "node = P" using walk_invD(2,3) [of v val0 P 0 node idx val] by simp
  with w have "find_walk t False val0 = (P, idx, val)" by simp
  moreover have "tsize t = n" using rep by (simp add: represents_def)
  ultimately show ?thesis using P by (simp add: find_def)
qed

lemma sat_inv_step:
  assumes rep: "represents t B n v"
    and all: "range_sum v 0 n \<le> unat val0"
    and inv: "sat_inv n v val0 (Suc g) s"
  shows "sat_inv n v val0 g (find_step t False g s)"
proof -
  obtain node idx val where s: "s = (node, idx, val)" by (cases s)
  define x where "x = candidate_value t False g idx"
  define c where "c = node + 2 ^ g"
  have step: "find_step t False g s =
      (if x \<le> val then (c, 2 * idx + 1, val - x) else (node, 2 * idx, val))"
    by (simp add: s find_step_eq x_def c_def)
  show ?thesis
  proof (cases "n < node")
    case True
    then show ?thesis by (simp add: step sat_inv_def c_def)
  next
    case False
    with inv have node: "node = idx * 2 ^ (g + 1)" and nn: "node \<le> n"
      and Pn: "n < node + 2 ^ (g + 1)" and uv: "unat val = unat val0 - range_sum v 0 node"
      by (simp_all add: sat_inv_def s)
    have cn: "c = node_number g idx" by (simp add: c_def node_number_def node)
    show ?thesis
    proof (cases "c \<le> n")
      case True
      then have valid: "node_number g idx \<le> n" by (simp only: cn)
      have ux: "unat x = range_sum v node c"
        unfolding x_def cn node by (rule candidate_value_sum [OF rep valid])
      have sc: "range_sum v 0 node + unat x = range_sum v 0 c"
        unfolding ux by (rule prefix_split) (simp add: c_def)
      have "range_sum v 0 c \<le> range_sum v 0 n" using True by (rule prefix_mono)
      with all have cle: "range_sum v 0 c \<le> unat val0" by simp
      with sc uv have "unat x \<le> unat val" by simp
      then have xv: "x \<le> val" by (simp add: word_le_nat_alt)
      have "unat (val - x) = unat val - unat x" using xv by (rule unat_sub)
      with sc uv cle have uv': "unat (val - x) = unat val0 - range_sum v 0 c" by simp
      have "c = (2 * idx + 1) * 2 ^ g" by (simp add: c_def node algebra_simps)
      moreover have "n < c + 2 ^ g" using Pn by (simp add: c_def)
      ultimately have "sat_inv n v val0 g (c, 2 * idx + 1, val - x)"
        using True uv' unfolding sat_inv_def by blast
      then show ?thesis using xv by (simp add: step)
    next
      case False
      then have r: "sat_inv n v val0 g (c, 2 * idx + 1, val - x)"
        by (simp add: sat_inv_def)
      have "node = 2 * idx * 2 ^ g" by (simp add: node)
      moreover have "n < node + 2 ^ g" using False by (simp add: c_def)
      ultimately have "sat_inv n v val0 g (node, 2 * idx, val)"
        using nn uv unfolding sat_inv_def by blast
      with r show ?thesis by (simp add: step)
    qed
  qed
qed

lemma sat_inv_fold:
  assumes rep: "represents t B n v" and all: "range_sum v 0 n \<le> unat val0"
  shows "sat_inv n v val0 h s \<Longrightarrow>
         sat_inv n v val0 0 (fold (find_step t False) (rev [0..<h]) s)"
proof (induction h arbitrary: s)
  case 0
  then show ?case by simp
next
  case (Suc h)
  from rep all Suc.prems have "sat_inv n v val0 h (find_step t False h s)"
    by (rule sat_inv_step)
  with Suc show ?case by (simp only: rev_upt_Suc fold_simps)
qed

lemma find_saturates:
  assumes rep: "represents t B n v" and all: "range_sum v 0 n \<le> unat val0"
  shows "find t val0 False = of_nat n - 1"
proof -
  have len: "length (level t) - 1 = find_last_set n"
    using rep by (simp add: represents_def length_make_level)
  have "n < 2 ^ find_last_set n"
    using find_last_set_le_iff [of n "find_last_set n"] by simp
  then have "sat_inv n v val0 (find_last_set n) (0, 0, val0)"
    by (simp add: sat_inv_def)
  with rep all have "sat_inv n v val0 0 (fold (find_step t False) (rev [0..<find_last_set n]) (0, 0, val0))"
    by (rule sat_inv_fold)
  then have i: "sat_inv n v val0 0 (find_walk t False val0)"
    by (simp only: find_walk_def len)
  obtain node idx val where w: "find_walk t False val0 = (node, idx, val)"
    by (cases "find_walk t False val0")
  have "n < node \<or> node = n" using i by (auto simp add: w sat_inv_def)
  moreover have "tsize t = n" using rep by (simp add: represents_def)
  ultimately show ?thesis by (auto simp add: find_def w)
qed

lemma range_sum_ones: "p \<le> n \<Longrightarrow> range_sum (replicate n 1) 0 p = p"
  by (simp add: range_sum_def)

lemma find_last_set_15: "find_last_set 15 = 4"
  by (simp add: find_last_set.simps)

lemma tree_bounds_ones15: "tree_bounds 7 15 ones15"
  by (simp add: tree_bounds_def find_last_set_15 ones15_def)

lemma range_sum_lessThan: "range_sum v 0 n = (\<Sum>j<n. unat (v ! j))"
  by (simp add: range_sum_def atLeast0LessThan)

section \<open>What find returns\<close>

text \<open>
  Claim C1 says that \<open>find(t)\<close> returns the smallest index whose prefix sum strictly
  exceeds \<open>t\<close>, so that \<open>find(t) = min(t, 14)\<close> on fifteen ones. On fifteen ones the
  smallest index whose prefix sum exceeds 0 is 0; the code returns \<open>2 ^ 64 - 1\<close>.
\<close>

theorem find_ones_counterexample:
  "find (ByteFenwickTree 7 zero_memory ones15 15) 0 False \<noteq> of_nat (min 0 14)"
proof -
  have rep: "represents (ByteFenwickTree 7 zero_memory ones15 15) 7 15 ones15"
    using tree_bounds_ones15 by (rule constructor_represents)
  have n: "(0::nat) < 15" by simp
  have lt: "unat (0 :: u64) < unat (ones15 ! 0)" by (simp add: ones15_def)
  have "find (ByteFenwickTree 7 zero_memory ones15 15) 0 False = - 1"
    using rep n lt by (rule find_left(2))
  then show ?thesis by simp
qed

text \<open>
  Claim C1 as amended: \<open>find(t)\<close> returns \<open>N - 1\<close> when \<open>t \<ge> S[N-1]\<close>, for every
  \<open>N\<close>; and for a tree of \<open>N = 2 ^ L - 1\<close> values, if \<open>j\<close> is the smallest index
  whose prefix sum \<open>S[j]\<close> strictly exceeds \<open>t\<close>, \<open>find(t)\<close> returns \<open>j - 1\<close> computed
  in \<open>size_t\<close> (so \<open>2 ^ 64 - 1\<close> for \<open>j = 0\<close>): the largest index whose prefix sum
  does not exceed \<open>t\<close>. In particular, for \<open>N = 15\<close> and all ones,
  \<open>find(t) = min(t, 15) - 1\<close>.
\<close>

theorem find_largest_not_exceeding:
  assumes "tree_bounds B n v"
  shows "((\<Sum>j<n. unat (v ! j)) \<le> unat t \<longrightarrow>
            find (ByteFenwickTree B env v n) t False = of_nat n - 1) \<and>
         (\<forall>L j. n + 1 = 2 ^ L \<and> j < n \<and> unat t < (\<Sum>i\<le>j. unat (v ! i)) \<and>
                (\<forall>i<j. (\<Sum>k\<le>i. unat (v ! k)) \<le> unat t) \<longrightarrow>
            find (ByteFenwickTree B env v n) t False = of_nat j - 1) \<and>
         (\<forall>u. find (ByteFenwickTree 7 env ones15 15) u False = of_nat (min (unat u) 15) - 1)"
proof (intro conjI allI impI)
  have rep: "represents (ByteFenwickTree B env v n) B n v"
    using assms by (rule constructor_represents)
  show "find (ByteFenwickTree B env v n) t False = of_nat n - 1"
    if "(\<Sum>j<n. unat (v ! j)) \<le> unat t"
  proof -
    have "range_sum v 0 n \<le> unat t" using that by (simp only: range_sum_lessThan)
    with rep show ?thesis by (rule find_saturates)
  qed
  show "find (ByteFenwickTree B env v n) t False = of_nat j - 1"
    if h: "n + 1 = 2 ^ L \<and> j < n \<and> unat t < (\<Sum>i\<le>j. unat (v ! i)) \<and>
           (\<forall>i<j. (\<Sum>k\<le>i. unat (v ! k)) \<le> unat t)" for L j
  proof -
    have hi: "unat t < range_sum v 0 (Suc j)"
      using h by (simp add: range_sum_atMost)
    have lo: "range_sum v 0 j \<le> unat t"
    proof (cases j)
      case 0
      then show ?thesis by simp
    next
      case (Suc i)
      then have "(\<Sum>k\<le>i. unat (v ! k)) \<le> unat t" using h by simp
      then show ?thesis by (simp add: Suc range_sum_atMost)
    qed
    have p: "n + 1 = 2 ^ L" and j: "j < n" using h by simp_all
    from assms rep p j lo hi show ?thesis by (rule find_perfect)
  qed
  have rep15: "represents (ByteFenwickTree 7 env ones15 15) 7 15 ones15"
    using tree_bounds_ones15 by (rule constructor_represents)
  show "find (ByteFenwickTree 7 env ones15 15) u False = of_nat (min (unat u) 15) - 1" for u
  proof (cases "unat u < 15")
    case True
    have lo: "range_sum ones15 0 (unat u) \<le> unat u"
      and hi: "unat u < range_sum ones15 0 (Suc (unat u))"
      using True by (simp_all add: ones15_def range_sum_ones)
    have p: "(15::nat) + 1 = 2 ^ 4" by simp
    have "find (ByteFenwickTree 7 env ones15 15) u False = of_nat (unat u) - 1"
      using tree_bounds_ones15 rep15 p True lo hi by (rule find_perfect)
    with True show ?thesis by (simp add: min_def)
  next
    case False
    have "range_sum ones15 0 15 \<le> unat u"
      using False by (simp add: ones15_def range_sum_ones)
    with rep15 have "find (ByteFenwickTree 7 env ones15 15) u False = of_nat 15 - 1"
      by (rule find_saturates)
    with False show ?thesis by (simp add: min_def)
  qed
qed

theorem find_largest_not_exceeding_witness:
  "tree_bounds 7 3 [1, 2, 3] \<and>
   find (ByteFenwickTree 7 zero_memory [1, 2, 3] 3) 6 False = 2 \<and>
   find (ByteFenwickTree 7 zero_memory [1, 2, 3] 3) 3 False = 1"
proof -
  have tb: "tree_bounds 7 3 [1, 2, 3]" by (rule tree_bounds_123)
  have s3: "{..<3::nat} = {0, 1, 2}" and s2: "{..2::nat} = {0, 1, 2}"
    and s1: "{..1::nat} = {0, 1}" by auto
  have a: "(\<Sum>j<3. unat ([1, 2, 3 :: u64] ! j)) \<le> unat (6 :: u64)"
    by (simp add: s3)
  have c: "(\<Sum>k\<le>i. unat ([1, 2, 3 :: u64] ! k)) \<le> unat (3 :: u64)" if "i < 2" for i :: nat
  proof -
    from that consider "i = 0" | "i = 1" by linarith
    then show ?thesis by cases (simp_all add: s1)
  qed
  have b: "(3::nat) + 1 = 2 ^ 2 \<and> (2::nat) < 3 \<and>
      unat (3 :: u64) < (\<Sum>i\<le>2. unat ([1, 2, 3 :: u64] ! i)) \<and>
      (\<forall>i<2. (\<Sum>k\<le>i. unat ([1, 2, 3 :: u64] ! k)) \<le> unat (3 :: u64))"
    using c by (simp add: s2)
  have "find (ByteFenwickTree 7 zero_memory [1, 2, 3] 3) 6 False = of_nat 3 - 1"
    using a by (rule find_largest_not_exceeding [OF tb, THEN conjunct1, rule_format])
  moreover have "find (ByteFenwickTree 7 zero_memory [1, 2, 3] 3) 3 False = of_nat 2 - 1"
    using b by (rule find_largest_not_exceeding [OF tb, THEN conjunct2, THEN conjunct1, rule_format])
  ultimately show ?thesis using tb by simp
qed

lemma unat_pow2_u64: "k < 64 \<Longrightarrow> unat (2 ^ k :: u64) = 2 ^ k"
proof -
  assume k: "k < 64"
  have "(2 ^ k :: u64) = of_nat (2 ^ k)" by simp
  then have "unat (2 ^ k :: u64) = take_bit 64 (2 ^ k :: nat)"
    by (simp only: unsigned_of_nat) simp
  also have "\<dots> = 2 ^ k"
    using k by (simp add: take_bit_nat_eq_self)
  finally show ?thesis .
qed

lemma tree_bounds_bitsize: "tree_bounds B n v \<Longrightarrow> 1 \<le> B \<and> B - 1 < 64"
  unfolding tree_bounds_def by linarith

lemma unat_complement:
  assumes "B - 1 < 64" "unat x \<le> 2 ^ (B - 1)"
  shows "unat (2 ^ (B - 1) - x :: u64) = 2 ^ (B - 1) - unat x"
proof -
  have "x \<le> 2 ^ (B - 1)"
    using assms by (simp add: word_le_nat_alt unat_pow2_u64)
  then have "unat (2 ^ (B - 1) - x) = unat (2 ^ (B - 1) :: u64) - unat x"
    by (rule unat_sub)
  then show ?thesis using assms(1) by (simp add: unat_pow2_u64)
qed

lemma complement_bounds:
  assumes tb: "tree_bounds B n v" and le: "\<forall>x \<in> set v. unat x \<le> 2 ^ (B - 1)"
  shows "tree_bounds B n (complement_sequence B v)"
proof -
  have B: "1 \<le> B" "B - 1 < 64" using tree_bounds_bitsize [OF tb] by simp_all
  have "unat (2 ^ (B - 1) - x :: u64) < 2 ^ B" if "x \<in> set v" for x
  proof -
    have "unat (2 ^ (B - 1) - x :: u64) \<le> 2 ^ (B - 1)"
      using unat_complement [OF B(2), of x] le that by simp
    also have "(2::nat) ^ (B - 1) < 2 ^ B" using B(1) by simp
    finally show ?thesis .
  qed
  then show ?thesis
    using tb by (auto simp add: tree_bounds_def complement_sequence_def)
qed

lemma range_sum_complement:
  assumes B: "B - 1 < 64" and le: "\<forall>x \<in> set v. unat x \<le> 2 ^ (B - 1)"
  shows "a + d \<le> length v \<Longrightarrow>
         range_sum (complement_sequence B v) a (a + d) + range_sum v a (a + d) = d * 2 ^ (B - 1)"
proof (induction d)
  case 0
  then show ?case by simp
next
  case (Suc d)
  have i: "a + d < length v" using Suc.prems by simp
  then have x: "unat (v ! (a + d)) \<le> 2 ^ (B - 1)" using le by simp
  have "complement_sequence B v ! (a + d) = 2 ^ (B - 1) - v ! (a + d)"
    using i by (simp add: complement_sequence_def)
  then have "unat (complement_sequence B v ! (a + d)) = 2 ^ (B - 1) - unat (v ! (a + d))"
    by (simp only: unat_complement [OF B x])
  moreover have "range_sum w a (a + Suc d) = range_sum w a (a + d) + unat (w ! (a + d))" for w
    by (simp add: range_sum_def)
  ultimately show ?case using Suc x by simp
qed

lemma candidate_value_complement:
  "candidate_value t True h k = push_bit (LEAF_BITSIZE t + h - 1) 1 - candidate_value t False h k"
  by (simp add: candidate_value_def Let_def)

lemma candidate_value_dual:
  assumes tb: "tree_bounds B n v" and le: "\<forall>x \<in> set v. unat x \<le> 2 ^ (B - 1)"
    and rep: "represents t B n v" and rep': "represents t' B n (complement_sequence B v)"
    and valid: "node_number h k \<le> n"
  shows "candidate_value t True h k = candidate_value t' False h k"
proof -
  define a where "a = k * 2 ^ (h + 1)"
  have c: "node_number h k = a + 2 ^ h" by (simp add: node_number_def a_def)
  have B: "1 \<le> B" "B - 1 < 64" using tree_bounds_bitsize [OF tb] by simp_all
  have hb: "B + h - 1 < 64"
    using tb valid_height [OF valid] unfolding tree_bounds_def by linarith
  have len: "a + 2 ^ h \<le> length v" using tb valid c by (simp add: tree_bounds_def)
  define w where "w = candidate_value t False h k"
  define w' where "w' = candidate_value t' False h k"
  have uw: "unat w = range_sum v a (a + 2 ^ h)"
    unfolding w_def a_def using candidate_value_sum [OF rep valid] by (simp only: c a_def)
  have uw': "unat w' = range_sum (complement_sequence B v) a (a + 2 ^ h)"
    unfolding w'_def a_def using candidate_value_sum [OF rep' valid] by (simp only: c a_def)
  have "(2::nat) ^ h * 2 ^ (B - 1) = 2 ^ (B + h - 1)"
    using B(1) by (simp add: power_add [symmetric])
  with range_sum_complement [OF B(2) le len] uw uw'
  have total: "unat w' + unat w = 2 ^ (B + h - 1)" by simp
  have p: "unat (2 ^ (B + h - 1) :: u64) = 2 ^ (B + h - 1)" using hb by (rule unat_pow2_u64)
  have "unat w \<le> unat (2 ^ (B + h - 1) :: u64)"
    unfolding p using total by linarith
  then have "w \<le> 2 ^ (B + h - 1)"
    by (simp only: word_le_nat_alt)
  then have "unat (2 ^ (B + h - 1) - w) = unat (2 ^ (B + h - 1) :: u64) - unat w"
    by (rule unat_sub)
  with total p have "unat (2 ^ (B + h - 1) - w) = unat w'" by simp
  then have "2 ^ (B + h - 1) - w = w'" by (rule word_unat_eq_iff [THEN iffD2])
  moreover have "LEAF_BITSIZE t = B" using rep by (simp add: represents_def)
  ultimately show ?thesis
    by (simp add: candidate_value_complement w_def w'_def)
qed

lemma find_step_dual:
  assumes tb: "tree_bounds B n v" and le: "\<forall>x \<in> set v. unat x \<le> 2 ^ (B - 1)"
    and rep: "represents t B n v" and rep': "represents t' B n (complement_sequence B v)"
    and perfect: "n + 1 = 2 ^ L"
  shows "h \<le> L \<Longrightarrow> Suc idx * 2 ^ h \<le> 2 ^ L \<Longrightarrow>
         fold (find_step t True) (rev [0..<h]) (node, idx, val)
         = fold (find_step t' False) (rev [0..<h]) (node, idx, val)"
proof (induction h arbitrary: node idx val)
  case 0
  then show ?case by simp
next
  case (Suc g)
  have g: "g < L" using Suc.prems(1) by simp
  have "idx * 2 ^ (g + 1) < Suc idx * 2 ^ (g + 1)" by simp
  also have "\<dots> \<le> 2 ^ L" using Suc.prems(2) by simp
  finally have "idx * 2 ^ (g + 1) < 2 ^ L" .
  with perfect g have valid: "node_number g idx \<le> n" by (rule perfect_valid)
  have eq: "candidate_value t True g idx = candidate_value t' False g idx"
    using tb le rep rep' valid by (rule candidate_value_dual)
  define x where "x = candidate_value t' False g idx"
  have s: "find_step t True g (node, idx, val) = find_step t' False g (node, idx, val)"
    by (simp only: find_step_eq eq)
  have n1: "Suc (2 * idx) * 2 ^ g \<le> 2 ^ L" and n2: "Suc (2 * idx + 1) * 2 ^ g \<le> 2 ^ L"
    using Suc.prems(2) by (simp_all add: algebra_simps)
  have gl: "g \<le> L" using g by simp
  show ?case
  proof (cases "x \<le> val")
    case True
    then have "find_step t' False g (node, idx, val) = (node + 2 ^ g, 2 * idx + 1, val - x)"
      by (simp add: find_step_eq x_def)
    with s Suc.IH [OF gl n2] show ?thesis by (simp only: rev_upt_Suc fold_simps)
  next
    case False
    then have "find_step t' False g (node, idx, val) = (node, 2 * idx, val)"
      by (simp add: find_step_eq x_def)
    with s Suc.IH [OF gl n1] show ?thesis by (simp only: rev_upt_Suc fold_simps)
  qed
qed

lemma find_dual:
  assumes tb: "tree_bounds B n v" and le: "\<forall>x \<in> set v. unat x \<le> 2 ^ (B - 1)"
    and rep: "represents t B n v" and rep': "represents t' B n (complement_sequence B v)"
    and perfect: "n + 1 = 2 ^ L"
  shows "find t val True = find t' val False"
proof -
  have len: "length (level t) - 1 = L" "length (level t') - 1 = L"
    using rep rep' perfect_find_last_set [OF perfect]
    by (simp_all add: represents_def length_make_level)
  have "Suc 0 * 2 ^ L \<le> (2::nat) ^ L" by simp
  then have "find_walk t True val = find_walk t' False val"
    unfolding find_walk_def len by (rule find_step_dual [OF tb le rep rep' perfect order_refl])
  moreover have "tsize t = n" "tsize t' = n" using rep rep' by (simp_all add: represents_def)
  moreover obtain node idx val' where "find_walk t' False val = (node, idx, val')"
    by (cases "find_walk t' False val")
  ultimately show ?thesis by (simp add: find_def)
qed

section \<open>find with complement\<close>

text \<open>
  Claim C5 says that \<open>find_complement(t)\<close> on the tree of \<open>v\<close> equals \<open>find(t)\<close> on the
  tree of \<open>v'[i] = L - v[i]\<close>, where \<open>L\<close> is also the parameter of the shift
  \<open>1 << (L + l - 1)\<close>, the template parameter \<open>LEAF_BITSIZE\<close>. With
  \<open>LEAF_BITSIZE = 7\<close>, \<open>v = [0]\<close> and \<open>t = 7\<close>: the complement walk compares 7 with
  \<open>(1 << 6) - 0 = 64\<close> and returns \<open>2 ^ 64 - 1\<close>, the plain walk on \<open>[7 - 0]\<close>
  compares 7 with 7 and returns 0.
\<close>

theorem find_complement_counterexample:
  "find (ByteFenwickTree 7 zero_memory [0] 1) 7 True
   \<noteq> find (ByteFenwickTree 7 zero_memory [7 - 0] 1) 7 False"
  by code_simp

text \<open>
  Claim C5 as amended: the complement is taken against \<open>2 ^ (LEAF_BITSIZE - 1)\<close>, the
  largest value of a leaf. For a tree of \<open>N = 2 ^ L - 1\<close> values \<open>v[i] \<le> 2 ^ (LEAF_BITSIZE - 1)\<close>,
  \<open>find(t, complement)\<close> on the tree of \<open>v\<close> returns what \<open>find(t)\<close> returns on the tree
  of \<open>v'[i] = 2 ^ (LEAF_BITSIZE - 1) - v[i]\<close>; and at every level \<open>h\<close> the complement walk
  uses \<open>(1 << (LEAF_BITSIZE + h - 1)) - w\<close> in place of the value \<open>w\<close> the plain walk reads
  for the same candidate.
\<close>

theorem find_complement_duality:
  assumes "tree_bounds B n v" and "n + 1 = 2 ^ L" and "\<forall>x \<in> set v. unat x \<le> 2 ^ (B - 1)"
  shows "find (ByteFenwickTree B env v n) t True
           = find (ByteFenwickTree B env' (complement_sequence B v) n) t False \<and>
         find_step (ByteFenwickTree B env v n) True h (node, idx, val)
           = (let w = candidate_value (ByteFenwickTree B env v n) False h idx;
                  value = push_bit (B + h - 1) 1 - w
              in if val \<ge> value then (node + 2 ^ h, 2 * idx + 1, val - value)
                 else (node, 2 * idx, val))"
proof
  have rep: "represents (ByteFenwickTree B env v n) B n v"
    using assms(1) by (rule constructor_represents)
  have "tree_bounds B n (complement_sequence B v)"
    using assms(1,3) by (rule complement_bounds)
  then have rep': "represents (ByteFenwickTree B env' (complement_sequence B v) n) B n
      (complement_sequence B v)"
    by (rule constructor_represents)
  show "find (ByteFenwickTree B env v n) t True
      = find (ByteFenwickTree B env' (complement_sequence B v) n) t False"
    using assms(1,3) rep rep' assms(2) by (rule find_dual)
  have "LEAF_BITSIZE (ByteFenwickTree B env v n) = B"
    by (simp add: ByteFenwickTree_def Let_def)
  then show "find_step (ByteFenwickTree B env v n) True h (node, idx, val)
           = (let w = candidate_value (ByteFenwickTree B env v n) False h idx;
                  value = push_bit (B + h - 1) 1 - w
              in if val \<ge> value then (node + 2 ^ h, 2 * idx + 1, val - value)
                 else (node, 2 * idx, val))"
    by (simp only: find_step_eq candidate_value_complement Let_def)
qed

theorem find_complement_duality_witness:
  "tree_bounds 7 3 [1, 2, 3] \<and> (3::nat) + 1 = 2 ^ 2 \<and>
   complement_sequence 7 [1, 2, 3] = [63, 62, 61] \<and>
   find (ByteFenwickTree 7 zero_memory [1, 2, 3] 3) 100 True
     = find (ByteFenwickTree 7 zero_memory [63, 62, 61] 3) 100 False"
proof -
  have tb: "tree_bounds 7 3 [1, 2, 3]" by (rule tree_bounds_123)
  have p: "(3::nat) + 1 = 2 ^ 2" by simp
  have le: "\<forall>x \<in> set [1, 2, 3 :: u64]. unat x \<le> 2 ^ (7 - 1)" by simp
  have c: "complement_sequence 7 [1, 2, 3] = [63, 62, 61]"
    by (simp add: complement_sequence_def)
  from find_complement_duality [OF tb p le, of zero_memory 100 zero_memory, THEN conjunct1]
  have "find (ByteFenwickTree 7 zero_memory [1, 2, 3] 3) 100 True
     = find (ByteFenwickTree 7 zero_memory [63, 62, 61] 3) 100 False"
    by (simp only: c)
  with tb p c show ?thesis by blast
qed

lemma dvd_node_number_iff: "2 ^ j dvd node_number h k \<longleftrightarrow> j \<le> h"
proof
  assume j: "j \<le> h"
  have "node_number h k = 2 ^ h * (2 * k + 1)" by (simp add: node_number_def algebra_simps)
  moreover have "(2::nat) ^ j dvd 2 ^ h" using j by (rule le_imp_power_dvd)
  ultimately show "2 ^ j dvd node_number h k" by simp
next
  assume d: "2 ^ j dvd node_number h k"
  show "j \<le> h"
  proof (rule ccontr)
    assume "\<not> j \<le> h"
    then have "Suc h \<le> j" by simp
    then have "(2::nat) ^ Suc h dvd 2 ^ j" by (rule le_imp_power_dvd)
    from this d have "(2::nat) ^ Suc h dvd node_number h k" by (rule dvd_trans)
    moreover have "node_number h k = 2 ^ h * (2 * k + 1)"
      by (simp add: node_number_def algebra_simps)
    ultimately have "(2::nat) ^ h * 2 dvd 2 ^ h * (2 * k + 1)"
      by (simp only: power_Suc2)
    then have "(2::nat) dvd 2 * k + 1"
      by (simp only: nat_mult_dvd_cancel_disj) simp
    then show False by simp
  qed
qed

lemma next_node:
  obtains h' k' where "node_number h k + 2 ^ h = node_number h' k'" "h < h'"
proof -
  have "0 < node_number h k + 2 ^ h" by simp
  then have "\<exists>h' k'. node_number h k + 2 ^ h = node_number h' k'"
    by (rule node_number_decompose)
  then obtain h' k' where e: "node_number h k + 2 ^ h = node_number h' k'"
    by (elim exE)
  have "node_number h k + 2 ^ h = 2 ^ Suc h * (k + 1)"
    by (simp add: node_number_def)
  then have "2 ^ Suc h dvd node_number h k + 2 ^ h"
    by (simp only: dvd_triv_left)
  then have "2 ^ Suc h dvd node_number h' k'" by (simp only: e)
  then have "Suc h \<le> h'" by (simp only: dvd_node_number_iff)
  then have "h < h'" by simp
  with e show ?thesis by (rule that)
qed

lemma set_path_node:
  "node_number h k \<le> n \<Longrightarrow>
   set_path n (node_number h k) = node_number h k # set_path n (node_number h k + 2 ^ h)"
  using node_number_pos [of h k]
  by (subst set_path.simps) (simp add: mask_first_set_node_number)

lemma set_path_beyond: "n < x \<Longrightarrow> set_path n x = []"
  by (subst set_path.simps) simp

lemma set_path_length:
  "node_number h k \<le> n \<Longrightarrow> length (set_path n (node_number h k)) + h \<le> find_last_set n"
proof (induction "Suc n - node_number h k" arbitrary: h k rule: less_induct)
  case less
  obtain h' k' where e: "node_number h k + 2 ^ h = node_number h' k'" and hh: "h < h'"
    by (rule next_node)
  show ?case
  proof (cases "node_number h' k' \<le> n")
    case True
    have "(0::nat) < 2 ^ h" by simp
    with e have "node_number h k < node_number h' k'" by linarith
    then have "Suc n - node_number h' k' < Suc n - node_number h k"
      using less.prems by simp
    then have "length (set_path n (node_number h' k')) + h' \<le> find_last_set n"
      using True by (rule less.hyps)
    with hh show ?thesis by (simp add: set_path_node [OF less.prems] e)
  next
    case False
    have "h < find_last_set n" using less.prems by (rule valid_height)
    with False show ?thesis
      by (simp add: set_path_node [OF less.prems] e set_path_beyond)
  qed
qed

lemma set_path_elements:
  "y \<in> set (set_path n x) \<Longrightarrow> x \<le> y \<and> 0 < y \<and> y \<le> n"
proof (induction n x rule: set_path.induct)
  case (1 n x)
  show ?case
  proof (cases "x = 0 \<or> n < x")
    case True
    with 1(2) show ?thesis by (simp add: set_path.simps [of n x])
  next
    case False
    with 1(2) have "y = x \<or> y \<in> set (set_path n (x + mask_first_set x))"
      by (simp add: set_path.simps [of n x])
    then show ?thesis
    proof
      assume "y = x"
      with False show ?thesis by simp
    next
      assume "y \<in> set (set_path n (x + mask_first_set x))"
      with 1(1) [OF False] show ?thesis by simp
    qed
  qed
qed

lemma layout_node:
  assumes "layout_ok t B n" "node_number h k \<le> n"
  shows "node_byte_pos t (node_number h k) = node_pos B n h k"
    and "get_size (LEAF_BITSIZE t) (node_height (node_number h k)) = get_size B h"
    and "get_size B h \<le> 8"
proof -
  have h: "h < find_last_set n" using assms(2) by (rule valid_height)
  then have "make_level B n ! h = level_entry B n h"
    by (intro make_level_nth) simp
  then show "node_byte_pos t (node_number h k) = node_pos B n h k"
    using assms(1)
    by (simp add: layout_ok_def node_byte_pos_def node_height_node_number Let_def
        drop_bit_Suc_node_number node_pos_def)
  show "get_size (LEAF_BITSIZE t) (node_height (node_number h k)) = get_size B h"
    using assms(1) by (simp add: layout_ok_def node_height_node_number)
  have "1 \<le> B" "h + B \<le> 64" using assms(1) h unfolding layout_ok_def by linarith+
  then show "get_size B h \<le> 8" by (rule get_size_le_8)
qed

lemma node_value_node_val:
  assumes "layout_ok t B n" "node_number h k \<le> n"
  shows "node_value t (node_number h k) = node_val B n (tree t) h k"
  unfolding node_value_def node_val_def
  by (simp only: layout_node(1,2) [OF assms])

lemma node_bytes_node:
  assumes "layout_ok t B n" "node_number h k \<le> n"
  shows "node_bytes t (node_number h k) = {node_pos B n h k ..< node_pos B n h k + get_size B h}"
  unfolding node_bytes_def by (simp only: layout_node(1,2) [OF assms])

lemma node_bytes_disjoint_numbers:
  assumes lay: "layout_ok t B n" and x: "0 < x" "x \<le> n" and y: "0 < y" "y \<le> n"
    and ne: "x \<noteq> y" and a: "a \<in> node_bytes t x"
  shows "a \<notin> node_bytes t y"
proof -
  obtain h k where xe: "x = node_number h k" using node_number_decompose [OF x(1)] by blast
  obtain h' k' where ye: "y = node_number h' k'" using node_number_decompose [OF y(1)] by blast
  have vx: "node_number h k \<le> n" and vy: "node_number h' k' \<le> n"
    using x(2) y(2) by (simp_all only: xe ye)
  have "(h, k) \<noteq> (h', k')" using ne by (auto simp add: xe ye)
  moreover have "node_pos B n h k \<le> a" "a < node_pos B n h k + get_size B h"
    using a by (simp_all add: xe node_bytes_node [OF lay vx])
  ultimately have "\<not> (node_pos B n h' k' \<le> a \<and> a < node_pos B n h' k' + get_size B h')"
    using vx vy by (intro node_bytes_disjoint) 
  then show ?thesis by (simp add: ye node_bytes_node [OF lay vy])
qed

lemma node_value_cong:
  assumes lay: "layout_ok t B n" and lay': "layout_ok t' B n" and x: "0 < x" "x \<le> n"
    and eq: "\<And>a. a \<in> node_bytes t x \<Longrightarrow> tree t' a = tree t a"
  shows "node_value t' x = node_value t x"
proof -
  obtain h k where xe: "x = node_number h k" using node_number_decompose [OF x(1)] by blast
  have vx: "node_number h k \<le> n" using x(2) by (simp only: xe)
  have s8: "get_size B h \<le> 8" using lay vx by (rule layout_node(3))
  have "load64 (tree t') (node_pos B n h k) AND BYTE_MASK ! get_size B h
      = load64 (tree t) (node_pos B n h k) AND BYTE_MASK ! get_size B h"
  proof (rule load_masked_cong [OF s8])
    fix a assume "node_pos B n h k \<le> a" "a < node_pos B n h k + get_size B h"
    then have "a \<in> node_bytes t x" by (simp add: xe node_bytes_node [OF lay vx])
    then show "tree t' a = tree t a" by (rule eq)
  qed
  then show ?thesis
    unfolding xe node_value_node_val [OF lay vx] node_value_node_val [OF lay' vx] node_val_def .
qed

lemma layout_ok_tree_update [simp]: "layout_ok (t\<lparr>tree := m\<rparr>) B n = layout_ok t B n"
  by (simp add: layout_ok_def)

lemma node_byte_pos_tree_update [simp]: "node_byte_pos (t\<lparr>tree := m\<rparr>) x = node_byte_pos t x"
  by (simp add: node_byte_pos_def)

lemma node_bytes_layout:
  assumes "layout_ok t B n" "layout_ok t' B n"
  shows "node_bytes t' x = node_bytes t x"
  using assms by (simp add: node_bytes_def node_byte_pos_def layout_ok_def)

lemma set_loop_step:
  assumes lay: "layout_ok t B n" and x: "0 < x" "x \<le> n"
    and fits: "unat (node_value t x + inc) < 2 ^ (8 * get_size B (node_height x))"
  shows "\<exists>t1. set_loop t x inc = set_loop t1 (x + mask_first_set x) inc \<and>
    layout_ok t1 B n \<and> tree_alloc t1 = tree_alloc t \<and>
    (\<forall>a. a \<notin> node_bytes t x \<longrightarrow> tree t1 a = tree t a) \<and>
    node_value t1 x = node_value t x + inc"
proof -
  obtain h k where xe: "x = node_number h k" using node_number_decompose [OF x(1)] by blast
  have vx: "node_number h k \<le> n" using x(2) by (simp only: xe)
  have s8: "get_size B h \<le> 8" using lay vx by (rule layout_node(3))
  define m where "m = tree t"
  define p where "p = node_pos B n h k"
  define w where "w = (load64 m p AND BYTE_MASK ! get_size B h) + inc"
  have pos: "node_byte_pos t x = p"
    unfolding xe p_def using lay vx by (rule layout_node(1))
  have nv: "node_value t x = load64 m p AND BYTE_MASK ! get_size B h"
    unfolding xe node_value_node_val [OF lay vx] node_val_def m_def p_def ..
  have "node_height x = h" by (simp add: xe node_height_node_number)
  with fits have f: "unat w < 2 ^ (8 * get_size B h)"
    by (simp only: nv w_def)
  have st: "store64 m p (load64 m p + inc) = store_bytes m p (get_size B h) w"
    unfolding w_def using s8 f [unfolded w_def] by (rule add_store_eq)
  define t1 where "t1 = t\<lparr>tree := store_bytes m p (get_size B h) w\<rparr>"
  have sz: "tsize t = n" using lay by (simp add: layout_ok_def)
  have 1: "set_loop t x inc = set_loop t1 (x + mask_first_set x) inc"
    using x(2) by (subst set_loop.simps) (simp add: sz pos st t1_def flip: m_def)
  have 2: "layout_ok t1 B n" using lay by (simp add: t1_def)
  have 3: "tree_alloc t1 = tree_alloc t" by (simp add: t1_def)
  have 4: "tree t1 a = tree t a" if "a \<notin> node_bytes t x" for a
    using that by (auto simp add: t1_def store_bytes_def xe node_bytes_node [OF lay vx] p_def m_def)
  have "node_value t1 x = node_val B n (tree t1) h k"
    unfolding xe using 2 vx by (rule node_value_node_val)
  also have "\<dots> = w AND BYTE_MASK ! get_size B h"
    unfolding t1_def p_def using node_val_store_bytes [OF s8, where n = n and m = m and k = k and v = w]
    by simp
  also have "\<dots> = w" using s8 f by (rule and_BYTE_MASK_id)
  finally have 5: "node_value t1 x = node_value t x + inc" by (simp only: w_def nv)
  from 1 2 3 4 5 show ?thesis by blast
qed

lemma set_loop_frame:
  assumes x: "0 < x"
  shows "layout_ok t B n \<Longrightarrow>
    (\<forall>y \<in> set (set_path n x). unat (node_value t y + inc) < 2 ^ (8 * get_size B (node_height y))) \<Longrightarrow>
    \<exists>t'. set_loop t x inc = Some t' \<and> layout_ok t' B n \<and> tree_alloc t' = tree_alloc t \<and>
         (\<forall>a. a \<notin> (\<Union>y \<in> set (set_path n x). node_bytes t y) \<longrightarrow> tree t' a = tree t a) \<and>
         (\<forall>y \<in> set (set_path n x). node_value t' y = node_value t y + inc)"
  using x
proof (induction "Suc n - x" arbitrary: x t rule: less_induct)
  case less
  show ?case
  proof (cases "x \<le> n")
    case False
    then have "set_path n x = []" by (simp add: set_path_beyond)
    moreover have "tsize t = n" using less.prems(1) by (simp add: layout_ok_def)
    then have "set_loop t x inc = Some t"
      using False by (subst set_loop.simps) simp
    ultimately show ?thesis using less.prems(1) by simp
  next
    case True
    define x' where "x' = x + mask_first_set x"
    have mfs: "0 < mask_first_set x" using less.prems(3) by (simp add: mask_first_set_def)
    have path: "set_path n x = x # set_path n x'"
      using True less.prems(3) by (subst set_path.simps) (simp add: x'_def)
    have fx: "unat (node_value t x + inc) < 2 ^ (8 * get_size B (node_height x))"
      using less.prems(2) by (simp add: path)
    obtain t1 where
      s1: "set_loop t x inc = set_loop t1 x' inc"
      and l1: "layout_ok t1 B n" and a1: "tree_alloc t1 = tree_alloc t"
      and f1': "\<forall>a. a \<notin> node_bytes t x \<longrightarrow> tree t1 a = tree t a"
      and v1: "node_value t1 x = node_value t x + inc"
      unfolding x'_def using set_loop_step [OF less.prems(1) less.prems(3) True fx] by blast
    have f1: "tree t1 a = tree t a" if "a \<notin> node_bytes t x" for a
      using f1' that by blast
    have rest: "x < y \<and> 0 < y \<and> y \<le> n" if "y \<in> set (set_path n x')" for y
      using set_path_elements [OF that] mfs by (simp add: x'_def)
    have same: "node_value t1 y = node_value t y" if "y \<in> set (set_path n x')" for y
    proof (rule node_value_cong [OF less.prems(1) l1])
      show "0 < y" "y \<le> n" using rest [OF that] by simp_all
      fix a assume "a \<in> node_bytes t y"
      then have "a \<notin> node_bytes t x"
        using rest [OF that] less.prems(3) True
        by (intro node_bytes_disjoint_numbers [OF less.prems(1), of y x]) simp_all
      then show "tree t1 a = tree t a" by (rule f1)
    qed
    have fits1: "\<forall>y \<in> set (set_path n x').
        unat (node_value t1 y + inc) < 2 ^ (8 * get_size B (node_height y))"
      using less.prems(2) same by (simp add: path)
    have "Suc n - x' < Suc n - x" using True mfs by (simp add: x'_def)
    moreover have "0 < x'" using less.prems(3) by (simp add: x'_def)
    ultimately obtain t' where
      s': "set_loop t1 x' inc = Some t'" and l': "layout_ok t' B n"
      and a': "tree_alloc t' = tree_alloc t1"
      and f': "\<forall>a. a \<notin> (\<Union>y \<in> set (set_path n x'). node_bytes t1 y) \<longrightarrow> tree t' a = tree t1 a"
      and v': "\<forall>y \<in> set (set_path n x'). node_value t' y = node_value t1 y + inc"
      using less.hyps [OF _ l1 fits1] by blast
    have nb: "node_bytes t1 y = node_bytes t y" for y
      using less.prems(1) l1 by (rule node_bytes_layout)
    have frame: "tree t' a = tree t a" if "a \<notin> (\<Union>y \<in> set (set_path n x). node_bytes t y)" for a
    proof -
      have "a \<notin> node_bytes t x" "a \<notin> (\<Union>y \<in> set (set_path n x'). node_bytes t1 y)"
        using that by (simp_all add: path nb)
      then show ?thesis using f' f1 by simp
    qed
    have vx: "node_value t' x = node_value t x + inc"
    proof -
      have "node_value t' x = node_value t1 x"
      proof (rule node_value_cong [OF l1 l'])
        show "0 < x" "x \<le> n" using less.prems(3) True by simp_all
        fix a assume a: "a \<in> node_bytes t1 x"
        have "a \<notin> node_bytes t1 y" if "y \<in> set (set_path n x')" for y
          using rest [OF that] less.prems(3) True a
          by (intro node_bytes_disjoint_numbers [OF l1, of x y]) simp_all
        then show "tree t' a = tree t1 a" using f' by blast
      qed
      then show ?thesis by (simp only: v1)
    qed
    have vals: "\<forall>y \<in> set (set_path n x). node_value t' y = node_value t y + inc"
      using vx v' same by (simp add: path)
    show ?thesis
      using s1 s' l' a' a1 frame vals by auto
  qed
qed

lemma constructor_layout:
  "tree_bounds B n v \<Longrightarrow> layout_ok (ByteFenwickTree B env v n) B n"
  by (simp add: tree_bounds_def layout_ok_def ByteFenwickTree_def Let_def)

lemma layout_tree123: "layout_ok tree123 7 3"
  unfolding tree123_def using tree_bounds_123 by (rule constructor_layout)

lemma set_path_3_1: "set_path 3 (0 + 1) = [1, 2]"
  by code_simp

lemma node_values_tree123:
  "node_value tree123 1 = 1" "node_value tree123 2 = 3" "node_value tree123 (Suc 0) = 1"
  by code_simp+

lemma node_heights_1_2: "node_height 1 = 0" "node_height 2 = 1" "node_height (Suc 0) = 0"
  by code_simp+

lemma byte_of_node_3: "(1::nat) \<in> node_bytes tree123 3"
  by code_simp

lemma node_3_off_path: "0 < (3::nat) \<and> (3::nat) \<le> 3 \<and> 3 \<notin> set (set_path 3 (0 + 1))"
  by code_simp

section \<open>What set changes\<close>

text \<open>
  Claim C4: for a valid index \<open>i\<close> and a signed increment that keeps the values of the
  nodes it is added to within the bytes their level gives a node, \<open>set(i, inc)\<close> changes
  only the nodes on the path \<open>i + 1\<close>, \<open>i + 1 + lowbit(i + 1)\<close>, \<dots> up to \<open>N\<close>, which
  are at most \<open>find_last_set N = \<lfloor>log\<^sub>2 N\<rfloor> + 1\<close> nodes. The loop terminates; every byte
  outside the bytes of the path's nodes is left as it was, in particular every byte of
  every other node, although each store writes eight bytes; each node on the path holds
  its old value plus the increment; the layout and the allocation are unchanged.
  The tree is any tree with the layout the constructor gives for \<open>N\<close> values, whatever
  its nodes hold.
\<close>

theorem set_changes_only_path:
  assumes "layout_ok t B n" and "i < n"
    and "\<forall>y \<in> set (set_path n (i + 1)).
           unat (node_value t y + inc) < 2 ^ (8 * get_size B (node_height y))"
  shows "\<exists>t'. set_tree t i inc = Some t' \<and>
           (\<forall>a. a \<notin> (\<Union>y \<in> set (set_path n (i + 1)). node_bytes t y) \<longrightarrow> tree t' a = tree t a) \<and>
           (\<forall>x. 0 < x \<and> x \<le> n \<and> x \<notin> set (set_path n (i + 1)) \<longrightarrow>
                (\<forall>a \<in> node_bytes t x. tree t' a = tree t a)) \<and>
           (\<forall>y \<in> set (set_path n (i + 1)). node_value t' y = node_value t y + inc) \<and>
           length (set_path n (i + 1)) \<le> find_last_set n \<and>
           level t' = level t \<and> tsize t' = tsize t \<and> tree_alloc t' = tree_alloc t"
proof -
  have pos: "0 < i + 1" by simp
  obtain t' where
    s: "set_loop t (i + 1) inc = Some t'" and l: "layout_ok t' B n"
    and a: "tree_alloc t' = tree_alloc t"
    and f: "\<forall>a. a \<notin> (\<Union>y \<in> set (set_path n (i + 1)). node_bytes t y) \<longrightarrow> tree t' a = tree t a"
    and v: "\<forall>y \<in> set (set_path n (i + 1)). node_value t' y = node_value t y + inc"
    using set_loop_frame [OF pos assms(1) assms(3)] by blast
  have others: "tree t' a = tree t a"
    if x: "0 < x \<and> x \<le> n \<and> x \<notin> set (set_path n (i + 1))" and a: "a \<in> node_bytes t x" for x a
  proof -
    have "a \<notin> node_bytes t y" if y: "y \<in> set (set_path n (i + 1))" for y
    proof -
      have "0 < y" "y \<le> n" using set_path_elements [OF y] by simp_all
      moreover have "x \<noteq> y" using x y by blast
      ultimately show ?thesis
        using x a by (intro node_bytes_disjoint_numbers [OF assms(1), of x y]) simp_all
    qed
    then have "a \<notin> (\<Union>y \<in> set (set_path n (i + 1)). node_bytes t y)" by blast
    with f show ?thesis by blast
  qed
  have len: "length (set_path n (i + 1)) \<le> find_last_set n"
  proof -
    obtain h k where e: "i + 1 = node_number h k" using node_number_decompose [OF pos] by blast
    then have "node_number h k \<le> n" using assms(2) by simp
    then have "length (set_path n (node_number h k)) + h \<le> find_last_set n"
      by (rule set_path_length)
    then show ?thesis unfolding e by simp
  qed
  have "level t' = level t" "tsize t' = tsize t"
    using l assms(1) by (simp_all add: layout_ok_def)
  with s f others v len a show ?thesis
    unfolding set_tree_def by blast
qed

theorem set_changes_only_path_witness:
  "layout_ok tree123 7 3 \<and> (0::nat) < 3 \<and>
   (\<exists>t'. set_tree tree123 0 (- 1) = Some t' \<and>
      node_value t' 1 = 1 + - 1 \<and> node_value t' 2 = 3 + - 1 \<and> tree t' 1 = tree tree123 1)"
proof -
  have i: "(0::nat) < 3" by simp
  have fits: "\<forall>y \<in> set (set_path 3 (0 + 1)).
      unat (node_value tree123 y + - 1) < 2 ^ (8 * get_size 7 (node_height y))"
    unfolding set_path_3_1
    by (simp add: node_values_tree123 get_size_def node_heights_1_2)
  obtain t' where s: "set_tree tree123 0 (- 1) = Some t'"
    and o: "\<forall>x. 0 < x \<and> x \<le> 3 \<and> x \<notin> set (set_path 3 (0 + 1)) \<longrightarrow>
                (\<forall>a \<in> node_bytes tree123 x. tree t' a = tree tree123 a)"
    and v: "\<forall>y \<in> set (set_path 3 (0 + 1)). node_value t' y = node_value tree123 y + - 1"
    using set_changes_only_path [OF layout_tree123 i fits] by blast
  have "tree t' 1 = tree tree123 1"
    using o node_3_off_path byte_of_node_3 by blast
  moreover have "node_value t' 1 = 1 + - 1" "node_value t' 2 = 3 + - 1"
    using v unfolding set_path_3_1 by (simp_all add: node_values_tree123)
  ultimately show ?thesis using s layout_tree123 i by blast
qed

end
